theory Spec2Isabelle
  imports Main "HOL-Library.Char_ord" "HOL-Library.List_Lexorder"
begin

unbundle bit_operations_syntax

section \<open>The digest: \<^verbatim>\<open>hashlib.sha256(...).hexdigest()\<close>\<close>

text \<open>
  \<^verbatim>\<open>node_server.py\<close> hashes with SHA-256 (FIPS 180-4). A 32-bit word is an integer from 0
  up to \<open>2 ^ 32 - 1\<close>; additions are taken modulo \<open>2 ^ 32\<close> explicitly. A byte is an integer
  from 0 up to 255. The round constants and the initial hash value are given in decimal.
\<close>

definition K256 :: "int list" where
  "K256 =
    [1116352408, 1899447441, 3049323471, 3921009573, 961987163, 1508970993,
     2453635748, 2870763221, 3624381080, 310598401, 607225278, 1426881987,
     1925078388, 2162078206, 2614888103, 3248222580, 3835390401, 4022224774,
     264347078, 604807628, 770255983, 1249150122, 1555081692, 1996064986,
     2554220882, 2821834349, 2952996808, 3210313671, 3336571891, 3584528711,
     113926993, 338241895, 666307205, 773529912, 1294757372, 1396182291,
     1695183700, 1986661051, 2177026350, 2456956037, 2730485921, 2820302411,
     3259730800, 3345764771, 3516065817, 3600352804, 4094571909, 275423344,
     430227734, 506948616, 659060556, 883997877, 958139571, 1322822218,
     1537002063, 1747873779, 1955562222, 2024104815, 2227730452, 2361852424,
     2428436474, 2756734187, 3204031479, 3329325298]"

definition H256 :: "int list" where
  "H256 =
    [1779033703, 3144134277, 1013904242, 2773480762, 1359893119, 2600822924,
     528734635, 1541459225]"

definition add32 :: "int \<Rightarrow> int \<Rightarrow> int" where
  "add32 x y = (x + y) mod 4294967296"

definition not32 :: "int \<Rightarrow> int" where
  "not32 x = 4294967295 - x"

definition rotr :: "nat \<Rightarrow> int \<Rightarrow> int" where
  "rotr n x = x div 2 ^ n + (x mod 2 ^ n) * 2 ^ (32 - n)"

definition shr :: "nat \<Rightarrow> int \<Rightarrow> int" where
  "shr n x = x div 2 ^ n"

definition Ch :: "int \<Rightarrow> int \<Rightarrow> int \<Rightarrow> int" where
  "Ch x y z = (x AND y) XOR (not32 x AND z)"

definition Maj :: "int \<Rightarrow> int \<Rightarrow> int \<Rightarrow> int" where
  "Maj x y z = (x AND y) XOR (x AND z) XOR (y AND z)"

definition bsig0 :: "int \<Rightarrow> int" where
  "bsig0 x = rotr 2 x XOR rotr 13 x XOR rotr 22 x"

definition bsig1 :: "int \<Rightarrow> int" where
  "bsig1 x = rotr 6 x XOR rotr 11 x XOR rotr 25 x"

definition ssig0 :: "int \<Rightarrow> int" where
  "ssig0 x = rotr 7 x XOR rotr 18 x XOR shr 3 x"

definition ssig1 :: "int \<Rightarrow> int" where
  "ssig1 x = rotr 17 x XOR rotr 19 x XOR shr 10 x"

text \<open>
  One round on the working variables \<open>[a, b, c, d, e, f, g, h]\<close>, with round constant
  \<open>k\<close> and message word \<open>w\<close>; \<open>sha_shift\<close> receives the two temporaries.
\<close>

fun sha_shift :: "int \<Rightarrow> int \<Rightarrow> int list \<Rightarrow> int list" where
  "sha_shift t1 t2 [a, b, c, d, e, f, g, h] = [add32 t1 t2, a, b, c, add32 d t1, e, f, g]"
| "sha_shift t1 t2 s = s"

fun sha_round :: "int \<Rightarrow> int \<Rightarrow> int list \<Rightarrow> int list" where
  "sha_round k w [a, b, c, d, e, f, g, h] =
     sha_shift (add32 (add32 (add32 (add32 h (bsig1 e)) (Ch e f g)) k) w)
       (add32 (bsig0 a) (Maj a b c)) [a, b, c, d, e, f, g, h]"
| "sha_round k w s = s"

text \<open>
  The message schedule as a window of the 16 latest words: the head is the word of the
  current round, and the next word is appended at the end.
\<close>

definition next_w :: "int list \<Rightarrow> int" where
  "next_w ws = add32 (add32 (add32 (ssig1 (ws ! 14)) (ws ! 9)) (ssig0 (ws ! 1))) (ws ! 0)"

fun sha_rounds :: "int list \<Rightarrow> int list \<Rightarrow> int list \<Rightarrow> int list" where
  "sha_rounds [] ws s = s"
| "sha_rounds (k # ks) ws s = sha_rounds ks (tl ws @ [next_w ws]) (sha_round k (hd ws) s)"

definition compress :: "int list \<Rightarrow> int list \<Rightarrow> int list" where
  "compress s ws = map2 add32 s (sha_rounds K256 ws s)"

fun be_words :: "int list \<Rightarrow> int list" where
  "be_words (a # b # c # d # bs) = (((a * 256 + b) * 256 + c) * 256 + d) # be_words bs"
| "be_words bs = []"

definition be_bytes8 :: "int \<Rightarrow> int list" where
  "be_bytes8 n = map (\<lambda>d. (n div d) mod 256)
     [72057594037927936, 281474976710656, 1099511627776, 4294967296, 16777216, 65536, 256, 1]"

definition sha_pad :: "int list \<Rightarrow> int list" where
  "sha_pad bs = bs @ [128] @ replicate ((119 - length bs mod 64) mod 64) 0 @ be_bytes8 (8 * int (length bs))"

fun sha_blocks :: "int list \<Rightarrow> int list \<Rightarrow> int list" where
  "sha_blocks s [] = s"
| "sha_blocks s (w # ws) = sha_blocks (compress s (take 16 (w # ws))) (drop 16 (w # ws))"

definition hex_digit :: "int \<Rightarrow> char" where
  "hex_digit n = ''0123456789abcdef'' ! nat n"

definition hex_word :: "int \<Rightarrow> string" where
  "hex_word w = map (\<lambda>d. hex_digit ((w div d) mod 16))
     [268435456, 16777216, 1048576, 65536, 4096, 256, 16, 1]"

definition sha256_hexdigest :: "int list \<Rightarrow> string" where
  "sha256_hexdigest bs = concat (map hex_word (sha_blocks H256 (be_words (sha_pad bs))))"

section \<open>JSON values and \<^verbatim>\<open>json.dumps(..., sort_keys=True)\<close>\<close>

text \<open>
  The values a block can hold and a peer can send. A Python \<^verbatim>\<open>float\<close> is kept as the
  text \<^verbatim>\<open>json.dumps\<close> writes for it (its \<^verbatim>\<open>repr\<close> when it is finite, and \<^verbatim>\<open>Infinity\<close>,
  \<^verbatim>\<open>-Infinity\<close> or \<^verbatim>\<open>NaN\<close> otherwise); the code never computes with a timestamp. A dictionary is an association list with distinct keys, in insertion order.
  Strings are over the code points 0 to 255.
\<close>

datatype json =
    JNull
  | JBool bool
  | JInt int
  | JFloat string
  | JStr string
  | JList "json list"
  | JDict "(string \<times> json) list"

definition digit_char :: "nat \<Rightarrow> char" where
  "digit_char n = ''0123456789'' ! n"

fun str_nat :: "nat \<Rightarrow> string" where
  "str_nat n = (if n < 10 then [digit_char n] else str_nat (n div 10) @ [digit_char (n mod 10)])"

declare str_nat.simps [simp del]

definition str_int :: "int \<Rightarrow> string" where
  "str_int i = (if i < 0 then CHR ''-'' # str_nat (nat (- i)) else str_nat (nat i))"

text \<open>
  \<^verbatim>\<open>ensure_ascii\<close> is on by default: the quote, the backslash and every character outside
  the printable ASCII range are escaped.
\<close>

definition escape_char :: "char \<Rightarrow> string" where
  "escape_char c =
     (if c = CHR 0x22 then [CHR 0x5C, CHR 0x22]
      else if c = CHR 0x5C then [CHR 0x5C, CHR 0x5C]
      else if c = CHR 0x0A then [CHR 0x5C, CHR ''n'']
      else if c = CHR 0x0D then [CHR 0x5C, CHR ''r'']
      else if c = CHR 0x09 then [CHR 0x5C, CHR ''t'']
      else if c = CHR 0x08 then [CHR 0x5C, CHR ''b'']
      else if c = CHR 0x0C then [CHR 0x5C, CHR ''f'']
      else if 32 \<le> (of_char c :: int) \<and> (of_char c :: int) \<le> 126 then [c]
      else [CHR 0x5C, CHR ''u'', CHR ''0'', CHR ''0'',
            hex_digit ((of_char c :: int) div 16), hex_digit ((of_char c :: int) mod 16)])"

definition dumps_str :: "string \<Rightarrow> string" where
  "dumps_str s = [CHR 0x22] @ concat (map escape_char s) @ [CHR 0x22]"

fun join :: "string \<Rightarrow> string list \<Rightarrow> string" where
  "join sep [] = []"
| "join sep [x] = x"
| "join sep (x # y # ys) = x @ sep @ join sep (y # ys)"

text \<open>
  \<open>json_dumps\<close> is \<^verbatim>\<open>json.dumps(v, sort_keys=True)\<close> with the default separators
  \<^verbatim>\<open>", "\<close> and \<^verbatim>\<open>": "\<close>. \<open>dumps_items\<close> renders the value of every member; the
  members are then sorted by key (keys are distinct, so values are never compared).
\<close>

fun json_dumps :: "json \<Rightarrow> string"
  and dumps_list :: "json list \<Rightarrow> string list"
  and dumps_items :: "(string \<times> json) list \<Rightarrow> (string \<times> string) list" where
  "json_dumps JNull = ''null''"
| "json_dumps (JBool b) = (if b then ''true'' else ''false'')"
| "json_dumps (JInt i) = str_int i"
| "json_dumps (JFloat r) = r"
| "json_dumps (JStr s) = dumps_str s"
| "json_dumps (JList vs) = ''['' @ join '', '' (dumps_list vs) @ '']''"
| "json_dumps (JDict kvs) =
     ''{'' @ join '', '' (map (\<lambda>(k, s). dumps_str k @ '': '' @ s) (sort_key fst (dumps_items kvs))) @ ''}''"
| "dumps_list [] = []"
| "dumps_list (v # vs) = json_dumps v # dumps_list vs"
| "dumps_items [] = []"
| "dumps_items ((k, v) # kvs) = (k, json_dumps v) # dumps_items kvs"

text \<open>
  \<^verbatim>\<open>str.encode()\<close> is UTF-8. The text \<^verbatim>\<open>json.dumps\<close> returns is ASCII, where UTF-8 is one
  byte per character.
\<close>

definition encode :: "string \<Rightarrow> int list" where
  "encode s = map of_char s"

section \<open>\<^verbatim>\<open>class Block\<close>\<close>

text \<open>
  A block carries the five attributes \<^verbatim>\<open>__init__\<close> sets. The attribute \<^verbatim>\<open>hash\<close> is not
  set by \<^verbatim>\<open>__init__\<close>: it is absent (\<open>None\<close>) until some caller assigns it, and
  \<^verbatim>\<open>delattr\<close> removes it again. The payload is a list of entries and the timestamp a
  number (\<^verbatim>\<open>0\<close> for the genesis block, \<^verbatim>\<open>time.time()\<close> otherwise).
\<close>

record block =
  index :: int
  data :: "json list"
  timestamp :: json
  previous_hash :: string
  nonce :: int
  hash :: "string option"

definition Block :: "int \<Rightarrow> json list \<Rightarrow> json \<Rightarrow> string \<Rightarrow> int \<Rightarrow> block" where
  "Block i d t p n =
     \<lparr>index = i, data = d, timestamp = t, previous_hash = p, nonce = n, hash = None\<rparr>"

text \<open>\<^verbatim>\<open>self.__dict__\<close>: every attribute the object has at the moment, \<^verbatim>\<open>hash\<close> included
  when it is set.\<close>

definition block_dict :: "block \<Rightarrow> (string \<times> json) list" where
  "block_dict b =
     [(''index'', JInt (index b)), (''data'', JList (data b)), (''timestamp'', timestamp b),
      (''previous_hash'', JStr (previous_hash b)), (''nonce'', JInt (nonce b))]
     @ (case hash b of None \<Rightarrow> [] | Some h \<Rightarrow> [(''hash'', JStr h)])"

definition block_string :: "block \<Rightarrow> string" where
  "block_string b = json_dumps (JDict (block_dict b))"

definition compute_hash :: "block \<Rightarrow> string" where
  "compute_hash b = sha256_hexdigest (encode (block_string b))"

section \<open>\<^verbatim>\<open>class Blockchain\<close>\<close>

datatype error = IndexError | AttributeError | KeyError | TamperedChainDump

record blockchain =
  unconfirmed_data :: "json list"
  chain :: "block list"

definition difficulty :: nat where
  "difficulty = 2"

definition Blockchain :: blockchain where
  "Blockchain = \<lparr>unconfirmed_data = [], chain = []\<rparr>"

definition genesis_block :: block where
  "genesis_block = (Block 0 [] (JInt 0) ''0'' 0)\<lparr>hash := Some (compute_hash (Block 0 [] (JInt 0) ''0'' 0))\<rparr>"

definition create_genesis_block :: "blockchain \<Rightarrow> blockchain" where
  "create_genesis_block bc = bc\<lparr>chain := chain bc @ [genesis_block]\<rparr>"

text \<open>\<^verbatim>\<open>self.chain[-1]\<close> raises \<^verbatim>\<open>IndexError\<close> on an empty chain; reading an attribute an
  object does not have raises \<^verbatim>\<open>AttributeError\<close>.\<close>

definition last_block :: "blockchain \<Rightarrow> error + block" where
  "last_block bc = (if chain bc = [] then Inl IndexError else Inr (last (chain bc)))"

definition get_hash :: "block \<Rightarrow> error + string" where
  "get_hash b = (case hash b of None \<Rightarrow> Inl AttributeError | Some h \<Rightarrow> Inr h)"

definition startswith :: "string \<Rightarrow> string \<Rightarrow> bool" where
  "startswith s p = (take (length p) s = p)"

definition is_valid_proof :: "block \<Rightarrow> string \<Rightarrow> bool" where
  "is_valid_proof b block_hash =
     (startswith block_hash (replicate difficulty CHR ''0'') \<and> block_hash = compute_hash b)"

text \<open>\<open>add_block\<close> returns the flag and the chain object after the call.\<close>

definition add_block :: "blockchain \<Rightarrow> block \<Rightarrow> string \<Rightarrow> error + (bool \<times> blockchain)" where
  "add_block bc b proof =
     (case last_block bc of
        Inl e \<Rightarrow> Inl e
      | Inr lb \<Rightarrow>
          (case get_hash lb of
             Inl e \<Rightarrow> Inl e
           | Inr prev \<Rightarrow>
               if prev \<noteq> previous_hash b then Inr (False, bc)
               else if \<not> is_valid_proof b proof then Inr (False, bc)
               else Inr (True, bc\<lparr>chain := chain bc @ [b\<lparr>hash := Some proof\<rparr>]\<rparr>)))"

text \<open>
  The search loop of \<open>proof_of_work\<close> has no bound: it is a partial function, and \<open>None\<close>
  is the search that never ends. It returns the digest and the block with the nonce it
  stopped at.
\<close>

partial_function (option) pow_loop :: "block \<Rightarrow> (string \<times> block) option" where
  "pow_loop b =
     (if startswith (compute_hash b) (replicate difficulty CHR ''0'') then Some (compute_hash b, b)
      else pow_loop (b\<lparr>nonce := nonce b + 1\<rparr>))"

definition proof_of_work :: "block \<Rightarrow> (string \<times> block) option" where
  "proof_of_work b = pow_loop (b\<lparr>nonce := 0\<rparr>)"

definition add_new_data :: "blockchain \<Rightarrow> json \<Rightarrow> blockchain" where
  "add_new_data bc d = bc\<lparr>unconfirmed_data := unconfirmed_data bc @ [d]\<rparr>"

text \<open>
  \<open>mine\<close> takes the value \<^verbatim>\<open>time.time()\<close> returns as \<open>now\<close>. The flag \<open>add_block\<close> returns
  is dropped, as in the source.
\<close>

definition mine :: "blockchain \<Rightarrow> json \<Rightarrow> (error + (bool \<times> blockchain)) option" where
  "mine bc now =
     (if unconfirmed_data bc = [] then Some (Inr (False, bc))
      else
        (case last_block bc of
           Inl e \<Rightarrow> Some (Inl e)
         | Inr lb \<Rightarrow>
             (case get_hash lb of
                Inl e \<Rightarrow> Some (Inl e)
              | Inr lh \<Rightarrow>
                  (case proof_of_work (Block (index lb + 1) (unconfirmed_data bc) now lh 0) of
                     None \<Rightarrow> None
                   | Some (proof, new_block) \<Rightarrow>
                       (case add_block bc new_block proof of
                          Inl e \<Rightarrow> Some (Inl e)
                        | Inr (added, bc') \<Rightarrow> Some (Inr (True, bc'\<lparr>unconfirmed_data := []\<rparr>)))))))"

section \<open>Validating and rebuilding a chain\<close>

text \<open>
  A block on the wire is a JSON object with the six fields of an appended block.
  \<open>check_chain_validity\<close> is called with whatever sequence of objects its caller has: the
  elements are \<open>Block\<close> instances or such JSON objects, and a JSON object has no
  attribute \<^verbatim>\<open>hash\<close>.
\<close>

record block_data =
  bd_index :: int
  bd_data :: "json list"
  bd_timestamp :: json
  bd_previous_hash :: string
  bd_nonce :: int
  bd_hash :: string

datatype pyobj = BlockObj block | DictObj block_data

text \<open>
  A Python list holds references, and \<^verbatim>\<open>delattr\<close> and the assignment to \<^verbatim>\<open>block.hash\<close>
  change the object itself: every position of the list that refers to the object sees the
  change. The objects live in a store, one at each address, and the sequence
  \<open>check_chain_validity\<close> walks is a list of addresses, in which an address may occur more
  than once.
\<close>

type_synonym addr = nat

type_synonym store = "addr \<Rightarrow> pyobj"

text \<open>
  The loop of \<open>check_chain_validity\<close>, with the expected predecessor hash. It returns the
  flag and the store as the call leaves it: \<^verbatim>\<open>delattr\<close> removes \<^verbatim>\<open>hash\<close> from the object
  before the test, the test reads the object without it, and the assignment after the test
  puts it back.
\<close>

fun check_chain_loop :: "string \<Rightarrow> addr list \<Rightarrow> store \<Rightarrow> error + (bool \<times> store)" where
  "check_chain_loop prev [] s = Inr (True, s)"
| "check_chain_loop prev (a # as) s =
     (case s a of
        DictObj d \<Rightarrow> Inl AttributeError
      | BlockObj b \<Rightarrow>
          (case hash b of
             None \<Rightarrow> Inl AttributeError
           | Some block_hash \<Rightarrow>
               if \<not> is_valid_proof (b\<lparr>hash := None\<rparr>) block_hash \<or> prev \<noteq> previous_hash (b\<lparr>hash := None\<rparr>)
               then Inr (False, s(a := BlockObj (b\<lparr>hash := None\<rparr>)))
               else check_chain_loop block_hash as
                      (s(a := BlockObj (b\<lparr>hash := None\<rparr>\<lparr>hash := Some block_hash\<rparr>)))))"

definition check_chain_validity :: "addr list \<Rightarrow> store \<Rightarrow> error + (bool \<times> store)" where
  "check_chain_validity chn s = check_chain_loop ''0'' chn s"

text \<open>
  An entry of a chain dump is a JSON object that has the six keys or lacks some of them:
  a field is \<open>None\<close> when the object has no such key, and subscripting the object with that
  key raises \<^verbatim>\<open>KeyError\<close>. \<open>create_chain_from_dump\<close> reads the five fields of the block and
  then \<^verbatim>\<open>block_data['hash']\<close>, all of them before \<open>add_block\<close> is called.
\<close>

record dump_entry =
  de_index :: "int option"
  de_data :: "json list option"
  de_timestamp :: "json option"
  de_previous_hash :: "string option"
  de_nonce :: "int option"
  de_hash :: "string option"

definition read_entry :: "dump_entry \<Rightarrow> error + block_data" where
  "read_entry e =
     (case (de_index e, de_data e, de_timestamp e, de_previous_hash e, de_nonce e, de_hash e) of
        (Some i, Some d, Some t, Some p, Some n, Some h) \<Rightarrow>
          Inr \<lparr>bd_index = i, bd_data = d, bd_timestamp = t, bd_previous_hash = p, bd_nonce = n, bd_hash = h\<rparr>
      | _ \<Rightarrow> Inl KeyError)"

text \<open>
  \<open>create_chain_from_dump\<close>: a fresh chain with a fresh genesis block, then every entry
  of the dump but the first is rebuilt and appended; the first refusal raises.
\<close>

fun dump_loop :: "blockchain \<Rightarrow> dump_entry list \<Rightarrow> error + blockchain" where
  "dump_loop g [] = Inr g"
| "dump_loop g (e # es) =
     (case read_entry e of
        Inl err \<Rightarrow> Inl err
      | Inr bd \<Rightarrow>
          (case add_block g (Block (bd_index bd) (bd_data bd) (bd_timestamp bd) (bd_previous_hash bd) (bd_nonce bd))
                  (bd_hash bd) of
             Inl err \<Rightarrow> Inl err
           | Inr (added, g') \<Rightarrow> if \<not> added then Inl TamperedChainDump else dump_loop g' es))"

definition create_chain_from_dump :: "dump_entry list \<Rightarrow> error + blockchain" where
  "create_chain_from_dump chain_dump = dump_loop (create_genesis_block Blockchain) (drop 1 chain_dump)"

section \<open>\<open>consensus\<close>\<close>

text \<open>
  What a peer answers on \<^verbatim>\<open>/chain\<close>: the length it reports and its chain as JSON. The
  peers are a set in the source; \<open>consensus\<close> takes their answers in the order the loop
  meets them. After the call, the global \<^verbatim>\<open>blockchain\<close> is the object it was, or the
  list \<^verbatim>\<open>longest_chain\<close>. \<^verbatim>\<open>response.json()\<close> builds the chain of the answer anew: element
  \<open>i\<close> of that list is an object of its own, at address \<open>i\<close> of \<open>json_store\<close>, and the
  sequence handed to \<open>check_chain_validity\<close> is the addresses below the length of the list.
\<close>

record peer_response =
  resp_length :: int
  resp_chain :: "block_data list"

datatype node_global = BlockchainObj blockchain | ChainList "block_data list"

definition json_store :: "block_data list \<Rightarrow> store" where
  "json_store c = (\<lambda>a. DictObj (c ! a))"

fun consensus_loop ::
  "int \<Rightarrow> block_data list option \<Rightarrow> peer_response list \<Rightarrow> error + (int \<times> block_data list option)" where
  "consensus_loop current_len longest_chain [] = Inr (current_len, longest_chain)"
| "consensus_loop current_len longest_chain (r # rs) =
     (if resp_length r > current_len then
        (case check_chain_validity [0..<length (resp_chain r)] (json_store (resp_chain r)) of
           Inl e \<Rightarrow> Inl e
         | Inr (valid, _) \<Rightarrow>
             if valid then consensus_loop (resp_length r) (Some (resp_chain r)) rs
             else consensus_loop current_len longest_chain rs)
      else consensus_loop current_len longest_chain rs)"

definition consensus :: "blockchain \<Rightarrow> peer_response list \<Rightarrow> error + (bool \<times> node_global)" where
  "consensus bc peers =
     (case consensus_loop (int (length (chain bc))) None peers of
        Inl e \<Rightarrow> Inl e
      | Inr (current_len, longest_chain) \<Rightarrow>
          (case longest_chain of
             None \<Rightarrow> Inr (False, BlockchainObj bc)
           | Some c \<Rightarrow> if c \<noteq> [] then Inr (True, ChainList c) else Inr (False, BlockchainObj bc)))"

section \<open>Requests that overlap\<close>




section \<open>What a node answers on \<^verbatim>\<open>/chain\<close>\<close>

text \<open>
  \<open>get_chain\<close> sends the length of the chain and the \<^verbatim>\<open>__dict__\<close> of every block in it.
  \<open>stored_hash\<close> reads the attribute \<^verbatim>\<open>hash\<close> of an appended block; every block of a chain
  has it, and the empty string stands for a block that does not.
\<close>

definition stored_hash :: "block \<Rightarrow> string" where
  "stored_hash b = (case hash b of None \<Rightarrow> [] | Some h \<Rightarrow> h)"

definition block_json :: "block \<Rightarrow> block_data" where
  "block_json b =
     \<lparr>bd_index = index b, bd_data = data b, bd_timestamp = timestamp b,
      bd_previous_hash = previous_hash b, bd_nonce = nonce b, bd_hash = stored_hash b\<rparr>"

definition get_chain :: "blockchain \<Rightarrow> peer_response" where
  "get_chain bc = \<lparr>resp_length = int (length (chain bc)), resp_chain = map block_json (chain bc)\<rparr>"

section \<open>The properties as the specification words them\<close>

text \<open>
  A block passes against an expected predecessor hash when its \<open>previous_hash\<close> is that
  hash and its content, without the attribute \<^verbatim>\<open>hash\<close>, is a valid proof for the hash it
  stores. A sequence is valid when every block passes against the stored hash of the block
  before it, the first against \<^verbatim>\<open>"0"\<close>.
\<close>

definition block_ok :: "string \<Rightarrow> block \<Rightarrow> bool" where
  "block_ok prev b = (previous_hash b = prev \<and> is_valid_proof (b\<lparr>hash := None\<rparr>) (stored_hash b))"

definition chain_valid_spec :: "block list \<Rightarrow> bool" where
  "chain_valid_spec bs =
     (\<forall>i<length bs. block_ok (if i = 0 then ''0'' else stored_hash (bs ! (i - 1))) (bs ! i))"

text \<open>
  The same walk from a given predecessor hash, and the hash expected after a prefix: both
  serve the induction over the loop.
\<close>

fun links_from :: "string \<Rightarrow> block list \<Rightarrow> bool" where
  "links_from prev [] = True"
| "links_from prev (b # bs) = (block_ok prev b \<and> links_from (stored_hash b) bs)"

definition end_hash :: "string \<Rightarrow> block list \<Rightarrow> string" where
  "end_hash prev bs = (if bs = [] then prev else stored_hash (last bs))"

text \<open>
  The block \<open>create_chain_from_dump\<close> and \<^verbatim>\<open>/add_block\<close> build from the fields on the wire.
\<close>

definition rebuild :: "block_data \<Rightarrow> block" where
  "rebuild bd = Block (bd_index bd) (bd_data bd) (bd_timestamp bd) (bd_previous_hash bd) (bd_nonce bd)"

text \<open>
  That block as \<open>add_block\<close> stores it, with the hash of the entry; and the entry a node
  sends for a block, which has all six keys.
\<close>

definition as_appended :: "block_data \<Rightarrow> block" where
  "as_appended bd = (rebuild bd)\<lparr>hash := Some (bd_hash bd)\<rparr>"

definition as_entry :: "block_data \<Rightarrow> dump_entry" where
  "as_entry bd =
     \<lparr>de_index = Some (bd_index bd), de_data = Some (bd_data bd), de_timestamp = Some (bd_timestamp bd),
      de_previous_hash = Some (bd_previous_hash bd), de_nonce = Some (bd_nonce bd), de_hash = Some (bd_hash bd)\<rparr>"

text \<open>
  The chains a node can hold: it starts from \<open>create_genesis_block\<close>, and every step is one
  public operation that returns. \<open>accepted\<close> says which blocks the environment hands to
  \<open>add_block\<close>: any block whatever, or only a block whose index is the head's plus one.
\<close>

inductive reachable :: "(blockchain \<Rightarrow> block \<Rightarrow> bool) \<Rightarrow> blockchain \<Rightarrow> bool"
  for accepted :: "blockchain \<Rightarrow> block \<Rightarrow> bool" where
  start: "reachable accepted (create_genesis_block Blockchain)"
| new_data: "reachable accepted bc \<Longrightarrow> reachable accepted (add_new_data bc d)"
| mined: "reachable accepted bc \<Longrightarrow> mine bc now = Some (Inr (r, bc')) \<Longrightarrow> reachable accepted bc'"
| added: "reachable accepted bc \<Longrightarrow> accepted bc b \<Longrightarrow> add_block bc b p = Inr (r, bc') \<Longrightarrow>
            reachable accepted bc'"
| agreed: "reachable accepted bc \<Longrightarrow> consensus bc peers = Inr (r, BlockchainObj bc') \<Longrightarrow>
            reachable accepted bc'"

definition any_block :: "blockchain \<Rightarrow> block \<Rightarrow> bool" where
  "any_block bc b = True"

definition next_index :: "blockchain \<Rightarrow> block \<Rightarrow> bool" where
  "next_index bc b = (index b = index (last (chain bc)) + 1)"

definition indices_ok :: "block list \<Rightarrow> bool" where
  "indices_ok c = (c \<noteq> [] \<and> map index c = map int [0..<length c])"

section \<open>Sample data\<close>

text \<open>
  One entry \<^verbatim>\<open>{"author": "a", "content": "hi"}\<close> is submitted to a fresh node and mined at
  time \<^verbatim>\<open>1700000604.5\<close>; the search stops at nonce 1. \<open>skipping_block\<close> links to the
  genesis block, carries a valid proof at nonce 5 and has index 5; \<open>overtaken_node\<close> is the
  node with the sample entry waiting after that block arrived. \<open>forged_first\<close> is a first
  block whose digest meets the difficulty, at nonce 99. \<open>sample_store\<close> holds that block at
  address 0, the genesis block at address 1 and a JSON object everywhere else.
\<close>

definition sample_entry :: json where
  "sample_entry = JDict [(''author'', JStr ''a''), (''content'', JStr ''hi'')]"

definition sample_now :: json where
  "sample_now = JFloat ''1700000604.5''"

definition waiting_node :: blockchain where
  "waiting_node = add_new_data (create_genesis_block Blockchain) sample_entry"

definition mined_candidate :: block where
  "mined_candidate = Block 1 [sample_entry] sample_now ''387464254e78af2350d472f48b429b090b46f0b3066b222fb482a8edfdb601ef'' 0"

definition mined_block :: block where
  "mined_block = mined_candidate\<lparr>nonce := 1, hash := Some ''0013927cee4dfefc91d99d03ac76ddb3a7a13b68ebd8a656770c030f23010745''\<rparr>"

definition mined_node :: blockchain where
  "mined_node = \<lparr>unconfirmed_data = [], chain = [genesis_block, mined_block]\<rparr>"

definition skipping_block :: block where
  "skipping_block = Block 5 [] (JInt 0) ''387464254e78af2350d472f48b429b090b46f0b3066b222fb482a8edfdb601ef'' 5"

definition skipped_node :: blockchain where
  "skipped_node =
     \<lparr>unconfirmed_data = [], chain = [genesis_block, skipping_block\<lparr>hash := Some ''006a4f49baa4d58aaca9de64268b049f7405f4acaa3f9fff90e6b9608f8a8630''\<rparr>]\<rparr>"


definition forged_first :: block where
  "forged_first = (Block 0 [] (JInt 0) ''0'' 99)\<lparr>hash := Some ''00a18d4f06cf49d1f6772323c60c0a1a17f16dce5626e9beb7938870d5460015''\<rparr>"

definition sample_store :: store where
  "sample_store = (\<lambda>a. DictObj (block_json mined_block))(0 := BlockObj forged_first, 1 := BlockObj genesis_block)"

section \<open>\<open>add_block\<close>\<close>

lemma add_block_cases:
  assumes "chain bc \<noteq> []" and "hash (last (chain bc)) = Some head_hash"
  shows "add_block bc b p =
     (if previous_hash b \<noteq> head_hash \<or> \<not> startswith p (replicate difficulty CHR ''0'') \<or> p \<noteq> compute_hash b
      then Inr (False, bc)
      else Inr (True, bc\<lparr>chain := chain bc @ [b\<lparr>hash := Some p\<rparr>]\<rparr>))"
  using assms by (auto simp: add_block_def last_block_def get_hash_def is_valid_proof_def)

lemma add_block_result:
  assumes "add_block g b p = Inr (added, g')"
  shows "g' = (if added then g\<lparr>chain := chain g @ [b\<lparr>hash := Some p\<rparr>]\<rparr> else g)"
  using assms by (auto simp: add_block_def split: sum.splits if_splits)

text \<open>
  Claim C3. On a chain with at least one block (whose head has its hash), \<open>add_block\<close>
  returns \<open>False\<close> and leaves the chain as it is when \<open>previous_hash\<close> of the block differs
  from the hash of the head, or when the proof lacks the leading zeros or differs from the
  recomputed digest of the block; otherwise it sets \<^verbatim>\<open>block.hash\<close> to the proof, appends the
  block as the new head and returns \<open>True\<close>.
\<close>

theorem add_block_spec:
  assumes "chain bc \<noteq> []" and "hash (last (chain bc)) = Some head_hash"
  shows "(previous_hash b \<noteq> head_hash \<or> \<not> startswith p (replicate difficulty CHR ''0'') \<or> p \<noteq> compute_hash b
            \<longrightarrow> add_block bc b p = Inr (False, bc)) \<and>
         (previous_hash b = head_hash \<and> startswith p (replicate difficulty CHR ''0'') \<and> p = compute_hash b
            \<longrightarrow> (\<exists>bc'. add_block bc b p = Inr (True, bc') \<and> unconfirmed_data bc' = unconfirmed_data bc \<and>
                   chain bc' = chain bc @ [b\<lparr>hash := Some p\<rparr>] \<and> last (chain bc') = b\<lparr>hash := Some p\<rparr>))"
  using add_block_cases [OF assms, of b p] by auto

section \<open>\<open>proof_of_work\<close>\<close>

lemma pow_loop_sound:
  assumes "pow_loop b = Some r"
  shows "\<exists>n. snd r = b\<lparr>nonce := nonce b + int n\<rparr> \<and> fst r = compute_hash (snd r) \<and>
           startswith (fst r) (replicate difficulty CHR ''0'') \<and>
           (\<forall>m<n. \<not> startswith (compute_hash (b\<lparr>nonce := nonce b + int m\<rparr>)) (replicate difficulty CHR ''0''))"
proof (rule pow_loop.raw_induct [OF _ assms])
  fix f :: "block \<Rightarrow> (string \<times> block) option" and b r
  assume IH: "\<And>x y. f x = Some y \<Longrightarrow>
      \<exists>n. snd y = x\<lparr>nonce := nonce x + int n\<rparr> \<and> fst y = compute_hash (snd y) \<and>
           startswith (fst y) (replicate difficulty CHR ''0'') \<and>
           (\<forall>m<n. \<not> startswith (compute_hash (x\<lparr>nonce := nonce x + int m\<rparr>)) (replicate difficulty CHR ''0''))"
    and body: "(if startswith (compute_hash b) (replicate difficulty CHR ''0'') then Some (compute_hash b, b)
                else f (b\<lparr>nonce := nonce b + 1\<rparr>)) = Some r"
  show "\<exists>n. snd r = b\<lparr>nonce := nonce b + int n\<rparr> \<and> fst r = compute_hash (snd r) \<and>
           startswith (fst r) (replicate difficulty CHR ''0'') \<and>
           (\<forall>m<n. \<not> startswith (compute_hash (b\<lparr>nonce := nonce b + int m\<rparr>)) (replicate difficulty CHR ''0''))"
  proof (cases "startswith (compute_hash b) (replicate difficulty CHR ''0'')")
    case True
    with body have r: "r = (compute_hash b, b)" by simp
    show ?thesis
      by (rule exI [of _ 0]) (simp add: r True)
  next
    case False
    with body have step: "f (b\<lparr>nonce := nonce b + 1\<rparr>) = Some r" by simp
    have "\<exists>n. snd r = b\<lparr>nonce := nonce b + 1 + int n\<rparr> \<and> fst r = compute_hash (snd r) \<and>
           startswith (fst r) (replicate difficulty CHR ''0'') \<and>
           (\<forall>m<n. \<not> startswith (compute_hash (b\<lparr>nonce := nonce b + 1 + int m\<rparr>)) (replicate difficulty CHR ''0''))"
      using IH [OF step] by simp
    then obtain n where n:
      "snd r = b\<lparr>nonce := nonce b + 1 + int n\<rparr>"
      "fst r = compute_hash (snd r)"
      "startswith (fst r) (replicate difficulty CHR ''0'')"
      "\<forall>m<n. \<not> startswith (compute_hash (b\<lparr>nonce := nonce b + 1 + int m\<rparr>)) (replicate difficulty CHR ''0'')"
      by blast
    have "\<not> startswith (compute_hash (b\<lparr>nonce := nonce b + int m\<rparr>)) (replicate difficulty CHR ''0'')"
      if "m < Suc n" for m
    proof (cases m)
      case 0
      then show ?thesis using False by simp
    next
      case (Suc k)
      with that have "k < n" by simp
      with n(4) have "\<not> startswith (compute_hash (b\<lparr>nonce := nonce b + 1 + int k\<rparr>)) (replicate difficulty CHR ''0'')"
        by blast
      then show ?thesis by (simp add: Suc add.assoc)
    qed
    then show ?thesis
      using n(1-3) by (intro exI [of _ "Suc n"]) (simp add: add.assoc)
  qed
qed

lemma pow_loop_complete:
  "startswith (compute_hash (b\<lparr>nonce := nonce b + int n\<rparr>)) (replicate difficulty CHR ''0'') \<Longrightarrow>
   \<exists>r. pow_loop b = Some r"
proof (induction n arbitrary: b)
  case 0
  then show ?case by (subst pow_loop.simps) simp
next
  case (Suc n)
  show ?case
  proof (cases "startswith (compute_hash b) (replicate difficulty CHR ''0'')")
    case True
    then show ?thesis by (subst pow_loop.simps) simp
  next
    case False
    have "\<exists>r. pow_loop (b\<lparr>nonce := nonce b + 1\<rparr>) = Some r"
      using Suc.prems by (intro Suc.IH) (simp add: add.assoc)
    then show ?thesis using False by (subst pow_loop.simps) simp
  qed
qed

lemma proof_of_work_sound:
  assumes "proof_of_work b = Some (d, b')"
  shows "\<exists>n. b' = b\<lparr>nonce := int n\<rparr> \<and> d = compute_hash b' \<and>
           startswith d (replicate difficulty CHR ''0'') \<and>
           (\<forall>m<n. \<not> startswith (compute_hash (b\<lparr>nonce := int m\<rparr>)) (replicate difficulty CHR ''0''))"
  using pow_loop_sound [of "b\<lparr>nonce := 0\<rparr>" "(d, b')"] assms
  by (simp add: proof_of_work_def)

lemma proof_of_work_complete:
  assumes "startswith (compute_hash (b\<lparr>nonce := int n\<rparr>)) (replicate difficulty CHR ''0'')"
  shows "\<exists>r. proof_of_work b = Some r"
  using pow_loop_complete [of "b\<lparr>nonce := 0\<rparr>" n] assms
  by (simp add: proof_of_work_def)

text \<open>
  Claim C7. When \<open>proof_of_work\<close> returns, the digest starts with \<open>difficulty\<close> zeros, the
  block is the candidate with its nonce at the first value, counting up from 0, whose
  digest does so, and \<open>is_valid_proof\<close> holds of that block and the digest. The search
  returns exactly when some nonce counted up from 0 gives such a digest.
\<close>

theorem proof_of_work_spec:
  "(proof_of_work b = Some (d, b') \<longrightarrow>
      startswith d (replicate difficulty CHR ''0'') \<and> is_valid_proof b' d \<and>
      (\<exists>n. b' = b\<lparr>nonce := int n\<rparr> \<and> d = compute_hash (b\<lparr>nonce := int n\<rparr>) \<and>
           (\<forall>m<n. \<not> startswith (compute_hash (b\<lparr>nonce := int m\<rparr>)) (replicate difficulty CHR ''0'')))) \<and>
   ((\<exists>r. proof_of_work b = Some r) =
      (\<exists>n. startswith (compute_hash (b\<lparr>nonce := int n\<rparr>)) (replicate difficulty CHR ''0'')))"
proof (intro conjI impI)
  assume a: "proof_of_work b = Some (d, b')"
  from proof_of_work_sound [OF a] obtain n where n:
    "b' = b\<lparr>nonce := int n\<rparr>" "d = compute_hash b'"
    "startswith d (replicate difficulty CHR ''0'')"
    "\<forall>m<n. \<not> startswith (compute_hash (b\<lparr>nonce := int m\<rparr>)) (replicate difficulty CHR ''0'')"
    by blast
  show "startswith d (replicate difficulty CHR ''0'')" by (rule n(3))
  show "is_valid_proof b' d" using n(2,3) by (simp add: is_valid_proof_def)
  show "\<exists>n. b' = b\<lparr>nonce := int n\<rparr> \<and> d = compute_hash (b\<lparr>nonce := int n\<rparr>) \<and>
           (\<forall>m<n. \<not> startswith (compute_hash (b\<lparr>nonce := int m\<rparr>)) (replicate difficulty CHR ''0''))"
    using n by blast
next
  show "(\<exists>r. proof_of_work b = Some r) =
      (\<exists>n. startswith (compute_hash (b\<lparr>nonce := int n\<rparr>)) (replicate difficulty CHR ''0''))"
  proof
    assume "\<exists>r. proof_of_work b = Some r"
    then obtain d b' where "proof_of_work b = Some (d, b')" by auto
    from proof_of_work_sound [OF this] show "\<exists>n. startswith (compute_hash (b\<lparr>nonce := int n\<rparr>)) (replicate difficulty CHR ''0'')"
      by blast
  next
    assume "\<exists>n. startswith (compute_hash (b\<lparr>nonce := int n\<rparr>)) (replicate difficulty CHR ''0'')"
    then show "\<exists>r. proof_of_work b = Some r" using proof_of_work_complete by blast
  qed
qed

section \<open>\<open>mine\<close>\<close>

lemma add_block_after_pow:
  assumes lb: "last_block bc = Inr lb" and lh: "hash lb = Some lh"
    and pw: "proof_of_work (Block i d t lh 0) = Some (p, nb)"
  shows "add_block bc nb p = Inr (True, bc\<lparr>chain := chain bc @ [nb\<lparr>hash := Some p\<rparr>]\<rparr>)"
proof -
  from proof_of_work_sound [OF pw] obtain n where n:
    "nb = (Block i d t lh 0)\<lparr>nonce := int n\<rparr>" "p = compute_hash nb"
    "startswith p (replicate difficulty CHR ''0'')"
    by blast
  have ph: "previous_hash nb = lh" by (simp add: n(1) Block_def)
  from lb have ne: "chain bc \<noteq> []" and l: "lb = last (chain bc)"
    by (auto simp: last_block_def split: if_splits)
  show ?thesis
    using add_block_cases [OF ne, of lh nb p] lh l ph n(2,3) by simp
qed

lemma mine_empty: "unconfirmed_data bc = [] \<Longrightarrow> mine bc now = Some (Inr (False, bc))"
  by (simp add: mine_def)

lemma mine_result:
  assumes ne: "unconfirmed_data bc \<noteq> []" and m: "mine bc now = Some (Inr (r, bc'))"
  shows "\<exists>lb lh p nb. last_block bc = Inr lb \<and> hash lb = Some lh \<and>
           proof_of_work (Block (index lb + 1) (unconfirmed_data bc) now lh 0) = Some (p, nb) \<and>
           add_block bc nb p = Inr (True, bc\<lparr>chain := chain bc @ [nb\<lparr>hash := Some p\<rparr>]\<rparr>) \<and>
           r = True \<and> bc' = bc\<lparr>chain := chain bc @ [nb\<lparr>hash := Some p\<rparr>], unconfirmed_data := []\<rparr>"
proof -
  from m ne obtain lb where lb: "last_block bc = Inr lb"
    by (auto simp: mine_def split: sum.splits)
  from m ne lb obtain lh where lh: "hash lb = Some lh"
    by (auto simp: mine_def get_hash_def split: sum.splits option.splits)
  from m ne lb lh obtain p nb where
    pw: "proof_of_work (Block (index lb + 1) (unconfirmed_data bc) now lh 0) = Some (p, nb)"
    by (auto simp: mine_def get_hash_def split: sum.splits option.splits)
  note ab = add_block_after_pow [OF lb lh pw]
  from m ne lb lh pw ab have "r = True \<and> bc' = bc\<lparr>chain := chain bc @ [nb\<lparr>hash := Some p\<rparr>], unconfirmed_data := []\<rparr>"
    by (auto simp: mine_def get_hash_def)
  with lb lh pw ab show ?thesis by blast
qed

lemma mine_returns:
  assumes ne: "unconfirmed_data bc \<noteq> []" and c: "chain bc \<noteq> []" and lh: "hash (last (chain bc)) = Some lh"
    and w: "startswith (compute_hash ((Block (index (last (chain bc)) + 1) (unconfirmed_data bc) now lh 0)\<lparr>nonce := int n\<rparr>))
              (replicate difficulty CHR ''0'')"
  shows "\<exists>bc'. mine bc now = Some (Inr (True, bc'))"
proof -
  from proof_of_work_complete [OF w] obtain p nb where
    pw: "proof_of_work (Block (index (last (chain bc)) + 1) (unconfirmed_data bc) now lh 0) = Some (p, nb)"
    by auto
  have lb: "last_block bc = Inr (last (chain bc))" using c by (simp add: last_block_def)
  note ab = add_block_after_pow [OF lb lh pw]
  show ?thesis using ne lb lh pw ab by (simp add: mine_def get_hash_def)
qed



section \<open>\<open>check_chain_validity\<close>\<close>

lemma links_from_nth:
  "links_from prev bs =
     (\<forall>i<length bs. block_ok (if i = 0 then prev else stored_hash (bs ! (i - 1))) (bs ! i))"
proof (induction bs arbitrary: prev)
  case Nil
  then show ?case by simp
next
  case (Cons b bs)
  have "(\<forall>i<length (b # bs). block_ok (if i = 0 then prev else stored_hash ((b # bs) ! (i - 1))) ((b # bs) ! i))
      = (block_ok prev b \<and> (\<forall>j<length bs. block_ok (if j = 0 then stored_hash b else stored_hash (bs ! (j - 1))) (bs ! j)))"
    (is "?L = ?R")
  proof
    assume l: ?L
    have "block_ok prev b" using l [rule_format, of 0] by simp
    moreover have "block_ok (if j = 0 then stored_hash b else stored_hash (bs ! (j - 1))) (bs ! j)"
      if "j < length bs" for j
      using l [rule_format, of "Suc j"] that by (cases j) simp_all
    ultimately show ?R by blast
  next
    assume r: ?R
    show ?L
    proof (intro allI impI)
      fix i assume "i < length (b # bs)"
      then show "block_ok (if i = 0 then prev else stored_hash ((b # bs) ! (i - 1))) ((b # bs) ! i)"
        using r by (cases i) (auto simp: nth_Cons split: nat.splits)
    qed
  qed
  then show ?case by (simp add: Cons.IH)
qed

lemma chain_valid_spec_links: "chain_valid_spec bs = links_from ''0'' bs"
  by (simp add: chain_valid_spec_def links_from_nth)

lemma links_from_append:
  "links_from prev (xs @ ys) = (links_from prev xs \<and> links_from (end_hash prev xs) ys)"
  by (induction xs arbitrary: prev) (auto simp: end_hash_def)

text \<open>
  One turn of the loop on a block that stores a hash: a block that passes has its hash
  again, so the walk goes on in the store it started with.
\<close>

lemma check_chain_loop_step:
  assumes "s a = BlockObj b" and "hash b = Some h"
  shows "check_chain_loop prev (a # as) s =
     (if block_ok prev b then check_chain_loop h as s
      else Inr (False, s(a := BlockObj (b\<lparr>hash := None\<rparr>))))"
proof -
  have "b\<lparr>hash := Some h\<rparr> = b" using assms(2) by (cases b) simp
  then have "s(a := BlockObj (b\<lparr>hash := Some h\<rparr>)) = s" using assms(1) by (simp add: fun_upd_idem)
  then show ?thesis using assms by (auto simp: block_ok_def stored_hash_def)
qed

lemma check_chain_loop_prefix:
  assumes "map s as = map BlockObj pre" and "\<forall>b\<in>set pre. hash b \<noteq> None" and "links_from prev pre"
  shows "check_chain_loop prev (as @ rest) s = check_chain_loop (end_hash prev pre) rest s"
  using assms
proof (induction as arbitrary: pre prev)
  case Nil
  then show ?case by (simp add: end_hash_def)
next
  case (Cons a as)
  from Cons.prems(1) obtain b pre' where pre: "pre = b # pre'" and sa: "s a = BlockObj b"
    and m: "map s as = map BlockObj pre'"
    by (cases pre) auto
  from Cons.prems(2) pre obtain h where h: "hash b = Some h" by auto
  from Cons.prems(3) pre h have ok: "block_ok prev b" and l: "links_from h pre'"
    by (simp_all add: stored_hash_def)
  have eh: "end_hash h pre' = end_hash prev (b # pre')"
    by (simp add: end_hash_def stored_hash_def h)
  have "check_chain_loop prev ((a # as) @ rest) s = check_chain_loop h (as @ rest) s"
    using check_chain_loop_step [where s = s and a = a, OF sa h, of prev "as @ rest"] ok by simp
  also have "\<dots> = check_chain_loop (end_hash h pre') rest s"
    using m Cons.prems(2) pre l by (intro Cons.IH) simp_all
  finally show ?case by (simp add: eh pre)
qed

lemma check_chain_loop_stop:
  assumes "s a = BlockObj b" and "hash b = Some h" and "\<not> block_ok prev b"
  shows "check_chain_loop prev (a # as) s = Inr (False, s(a := BlockObj (b\<lparr>hash := None\<rparr>)))"
  using check_chain_loop_step [where s = s and a = a, OF assms(1,2), of prev as] assms(3) by simp

lemma check_chain_loop_blocks:
  assumes "map s as = map BlockObj bs" and "\<forall>b\<in>set bs. hash b \<noteq> None"
  shows "\<exists>s'. check_chain_loop prev as s = Inr (links_from prev bs, s')"
  using assms
proof (induction as arbitrary: bs prev)
  case Nil
  then show ?case by simp
next
  case (Cons a as)
  from Cons.prems(1) obtain b bs' where bs: "bs = b # bs'" and sa: "s a = BlockObj b"
    and m: "map s as = map BlockObj bs'"
    by (cases bs) auto
  from Cons.prems(2) bs obtain h where h: "hash b = Some h" by auto
  show ?case
  proof (cases "block_ok prev b")
    case True
    from Cons.IH [OF m, of h] Cons.prems(2) bs obtain s' where
      "check_chain_loop h as s = Inr (links_from h bs', s')" by auto
    then show ?thesis
      using check_chain_loop_step [where s = s and a = a, OF sa h, of prev as] True bs by (simp add: stored_hash_def h)
  next
    case False
    then show ?thesis using check_chain_loop_stop [where s = s and a = a, OF sa h False, of as] bs by simp
  qed
qed

text \<open>
  Where a walk that returns \<open>False\<close> stopped, and what it leaves behind.
\<close>

lemma check_chain_loop_False:
  assumes "check_chain_loop prev chn s = Inr (False, s')"
  shows "\<exists>as a rest pre b h. chn = as @ a # rest \<and> map s as = map BlockObj pre \<and>
           (\<forall>x\<in>set pre. hash x \<noteq> None) \<and> links_from prev pre \<and>
           s a = BlockObj b \<and> hash b = Some h \<and> \<not> block_ok (end_hash prev pre) b \<and>
           s' = s(a := BlockObj (b\<lparr>hash := None\<rparr>))"
  using assms
proof (induction chn arbitrary: prev)
  case Nil
  then show ?case by simp
next
  case (Cons c chn)
  from Cons.prems obtain x where sc: "s c = BlockObj x"
    by (cases "s c") auto
  from Cons.prems sc obtain hx where hx: "hash x = Some hx"
    by (cases "hash x") auto
  note step = check_chain_loop_step [where s = s and a = c, OF sc hx, of prev chn]
  show ?case
  proof (cases "block_ok prev x")
    case False
    with Cons.prems step have "s' = s(c := BlockObj (x\<lparr>hash := None\<rparr>))" by simp
    moreover have "\<not> block_ok (end_hash prev []) x" using False by (simp add: end_hash_def)
    ultimately show ?thesis using sc hx
      by (intro exI [of _ "[]"] exI [of _ c] exI [of _ chn] exI [of _ x] exI [of _ hx]) simp
  next
    case True
    with Cons.prems step have "check_chain_loop hx chn s = Inr (False, s')" by simp
    from Cons.IH [OF this] obtain as a rest pre b h where p:
      "chn = as @ a # rest" "map s as = map BlockObj pre" "\<forall>y\<in>set pre. hash y \<noteq> None"
      "links_from hx pre" "s a = BlockObj b" "hash b = Some h" "\<not> block_ok (end_hash hx pre) b"
      "s' = s(a := BlockObj (b\<lparr>hash := None\<rparr>))"
      by blast
    have eh: "end_hash prev (x # pre) = end_hash hx pre"
      by (simp add: end_hash_def stored_hash_def hx)
    have lf: "links_from prev (x # pre)" using True p(4) by (simp add: stored_hash_def hx)
    show ?thesis
      using p sc hx eh lf
      by (intro exI [of _ "c # as"] exI [of _ a] exI [of _ rest] exI [of _ "x # pre"]
          exI [of _ b] exI [of _ h]) simp
  qed
qed

lemma check_chain_loop_True:
  assumes "check_chain_loop prev chn s = Inr (True, s')"
  shows "s' = s"
  using assms
proof (induction chn arbitrary: prev)
  case Nil
  then show ?case by simp
next
  case (Cons c chn)
  from Cons.prems obtain x where sc: "s c = BlockObj x"
    by (cases "s c") auto
  from Cons.prems sc obtain hx where hx: "hash x = Some hx"
    by (cases "hash x") auto
  from Cons.prems check_chain_loop_step [where s = s and a = c, OF sc hx, of prev chn]
  have "check_chain_loop hx chn s = Inr (True, s')" by (simp split: if_splits)
  then show ?case by (rule Cons.IH)
qed

text \<open>
  Claim C4. On a sequence of blocks that store a hash, whichever objects stand at several
  of its positions, \<open>check_chain_validity\<close> returns \<open>True\<close> if and only if every block, the
  first one included, has the stored hash of its predecessor as \<open>previous_hash\<close> (\<^verbatim>\<open>"0"\<close>
  for the first) and is a valid proof for its own stored hash. It stops at the first block
  that fails: whatever follows that block is not looked at, and the result is \<open>False\<close>.
\<close>

theorem check_chain_validity_spec:
  "(map s chn = map BlockObj bs \<and> (\<forall>b\<in>set bs. hash b \<noteq> None) \<longrightarrow>
      (\<exists>s'. check_chain_validity chn s = Inr (chain_valid_spec bs, s'))) \<and>
   (map s chn = map BlockObj (pre @ [x]) \<and> (\<forall>b\<in>set (pre @ [x]). hash b \<noteq> None) \<and>
    chain_valid_spec pre \<and> \<not> chain_valid_spec (pre @ [x]) \<longrightarrow>
      (\<exists>s'. check_chain_validity (chn @ rest) s = Inr (False, s')))"
proof (intro conjI impI)
  assume "map s chn = map BlockObj bs \<and> (\<forall>b\<in>set bs. hash b \<noteq> None)"
  then have "\<exists>s'. check_chain_loop ''0'' chn s = Inr (links_from ''0'' bs, s')"
    by (intro check_chain_loop_blocks) simp_all
  then show "\<exists>s'. check_chain_validity chn s = Inr (chain_valid_spec bs, s')"
    by (simp add: check_chain_validity_def chain_valid_spec_links)
next
  assume a: "map s chn = map BlockObj (pre @ [x]) \<and> (\<forall>b\<in>set (pre @ [x]). hash b \<noteq> None) \<and>
    chain_valid_spec pre \<and> \<not> chain_valid_spec (pre @ [x])"
  then have hp: "\<forall>b\<in>set pre. hash b \<noteq> None" and lp: "links_from ''0'' pre"
    and nx: "\<not> block_ok (end_hash ''0'' pre) x"
    by (auto simp: chain_valid_spec_links links_from_append)
  from a obtain h where h: "hash x = Some h" by auto
  from a have len: "length chn = Suc (length pre)"
    using map_eq_imp_length_eq [of s chn BlockObj "pre @ [x]"] by simp
  define as where "as = butlast chn"
  define c where "c = last chn"
  from len have chn: "chn = as @ [c]" by (cases chn rule: rev_cases) (simp_all add: as_def c_def)
  from a chn len have m: "map s as = map BlockObj pre" and sc: "s c = BlockObj x" by simp_all
  have "check_chain_loop ''0'' (as @ c # rest) s = Inr (False, s(c := BlockObj (x\<lparr>hash := None\<rparr>)))"
    by (subst check_chain_loop_prefix [OF m hp lp], rule check_chain_loop_stop [where s = s and a = c, OF sc h nx])
  then show "\<exists>s'. check_chain_validity (chn @ rest) s = Inr (False, s')"
    by (simp add: check_chain_validity_def chn)
qed

text \<open>
  Claim C10, as amended. \<open>check_chain_validity\<close> changes the objects of its argument. When it
  returns \<open>False\<close>, the store it leaves is the one it was given except for one object, the
  first failing block, which has lost its attribute \<^verbatim>\<open>hash\<close>: the blocks before it pass,
  and every object other than the failing one, before or after it in the sequence, is as
  it was. So every block before the failing one has its hash with the value it had, unless
  the failing object itself stands at an earlier position too. When the call returns
  \<open>True\<close> every block has its hash back.
\<close>

theorem check_chain_validity_effect:
  "(check_chain_validity chn s = Inr (False, s') \<longrightarrow>
      (\<exists>as a rest pre b h. chn = as @ a # rest \<and> map s as = map BlockObj pre \<and>
          s a = BlockObj b \<and> hash b = Some h \<and>
          s' a = BlockObj (b\<lparr>hash := None\<rparr>) \<and> s' a \<noteq> s a \<and> (\<forall>c. c \<noteq> a \<longrightarrow> s' c = s c) \<and>
          (\<forall>x\<in>set pre. hash x \<noteq> None) \<and> (a \<notin> set as \<longrightarrow> map s' as = map BlockObj pre) \<and>
          check_chain_validity as s = Inr (True, s) \<and>
          (\<not> is_valid_proof (b\<lparr>hash := None\<rparr>) h \<or>
           previous_hash b \<noteq> (if pre = [] then ''0'' else stored_hash (last pre))))) \<and>
   (check_chain_validity chn s = Inr (True, s') \<longrightarrow> s' = s)"
proof (intro conjI impI)
  assume "check_chain_validity chn s = Inr (False, s')"
  then have "check_chain_loop ''0'' chn s = Inr (False, s')"
    by (simp add: check_chain_validity_def)
  from check_chain_loop_False [OF this] obtain as a rest pre b h where p:
    "chn = as @ a # rest" "map s as = map BlockObj pre" "\<forall>x\<in>set pre. hash x \<noteq> None"
    "links_from ''0'' pre" "s a = BlockObj b" "hash b = Some h"
    "\<not> block_ok (end_hash ''0'' pre) b" "s' = s(a := BlockObj (b\<lparr>hash := None\<rparr>))"
    by blast
  have lost: "s' a = BlockObj (b\<lparr>hash := None\<rparr>)" and others: "\<forall>c. c \<noteq> a \<longrightarrow> s' c = s c"
    by (simp_all add: p(8))
  have neq: "s' a \<noteq> s a"
  proof
    assume "s' a = s a"
    with lost p(5) have "b\<lparr>hash := None\<rparr> = b" by simp
    then have "hash (b\<lparr>hash := None\<rparr>) = hash b" by simp
    with p(6) show False by simp
  qed
  have before: "a \<notin> set as \<longrightarrow> map s' as = map BlockObj pre"
    using p(2) by (auto simp: p(8))
  have "check_chain_loop ''0'' (as @ []) s = check_chain_loop (end_hash ''0'' pre) [] s"
    by (rule check_chain_loop_prefix [OF p(2,3,4)])
  then have pass: "check_chain_validity as s = Inr (True, s)"
    by (simp add: check_chain_validity_def)
  have fail: "\<not> is_valid_proof (b\<lparr>hash := None\<rparr>) h \<or>
           previous_hash b \<noteq> (if pre = [] then ''0'' else stored_hash (last pre))"
    using p(7,6) by (auto simp: block_ok_def end_hash_def stored_hash_def)
  show "\<exists>as a rest pre b h. chn = as @ a # rest \<and> map s as = map BlockObj pre \<and>
          s a = BlockObj b \<and> hash b = Some h \<and>
          s' a = BlockObj (b\<lparr>hash := None\<rparr>) \<and> s' a \<noteq> s a \<and> (\<forall>c. c \<noteq> a \<longrightarrow> s' c = s c) \<and>
          (\<forall>x\<in>set pre. hash x \<noteq> None) \<and> (a \<notin> set as \<longrightarrow> map s' as = map BlockObj pre) \<and>
          check_chain_validity as s = Inr (True, s) \<and>
          (\<not> is_valid_proof (b\<lparr>hash := None\<rparr>) h \<or>
           previous_hash b \<noteq> (if pre = [] then ''0'' else stored_hash (last pre)))"
    using p(1,2,3,5,6) lost neq others before pass fail by blast
next
  assume "check_chain_validity chn s = Inr (True, s')"
  then show "s' = s"
    using check_chain_loop_True by (simp add: check_chain_validity_def)
qed

section \<open>\<open>create_chain_from_dump\<close>\<close>

lemma read_entry_as_entry: "read_entry (as_entry bd) = Inr bd"
  by (simp add: read_entry_def as_entry_def)

lemma as_appended_hash:
  "hash (as_appended bd) = Some (bd_hash bd)" "stored_hash (as_appended bd) = bd_hash bd"
  by (simp_all add: as_appended_def stored_hash_def)

lemma dump_loop_append:
  "dump_loop g (xs @ ys) = (case dump_loop g xs of Inl e \<Rightarrow> Inl e | Inr g1 \<Rightarrow> dump_loop g1 ys)"
  by (induction xs arbitrary: g) (auto split: sum.splits)

text \<open>
  The append of a rebuilt block succeeds exactly when the block, as it is stored, passes
  against the hash of the head.
\<close>

lemma add_block_rebuilt:
  assumes "chain g \<noteq> []" and "hash (last (chain g)) = Some h"
  shows "add_block g (rebuild bd) (bd_hash bd) =
     (if block_ok h (as_appended bd) then Inr (True, g\<lparr>chain := chain g @ [as_appended bd]\<rparr>)
      else Inr (False, g))"
proof -
  have "(as_appended bd)\<lparr>hash := None\<rparr> = rebuild bd"
    by (simp add: as_appended_def rebuild_def Block_def)
  then show ?thesis
    using add_block_cases [OF assms, of "rebuild bd" "bd_hash bd"]
    by (auto simp: block_ok_def stored_hash_def is_valid_proof_def as_appended_def rebuild_def Block_def)
qed

lemma dump_loop_step:
  assumes "chain g \<noteq> []" and "hash (last (chain g)) = Some h" and "read_entry e = Inr bd"
  shows "dump_loop g (e # es) =
     (if block_ok h (as_appended bd) then dump_loop (g\<lparr>chain := chain g @ [as_appended bd]\<rparr>) es
      else Inl TamperedChainDump)"
  using add_block_rebuilt [OF assms(1,2), of bd] assms(3) by (simp add: rebuild_def)

lemma dump_loop_complete:
  assumes "chain g \<noteq> []" and "hash (last (chain g)) = Some h"
    and "map read_entry es = map Inr bds" and "links_from h (map as_appended bds)"
  shows "dump_loop g es = Inr (g\<lparr>chain := chain g @ map as_appended bds\<rparr>)"
  using assms
proof (induction es arbitrary: g h bds)
  case Nil
  then show ?case by simp
next
  case (Cons e es)
  from Cons.prems(3) obtain bd bds' where bds: "bds = bd # bds'" and re: "read_entry e = Inr bd"
    and m: "map read_entry es = map Inr bds'"
    by (cases bds) auto
  from Cons.prems(4) bds have ok: "block_ok h (as_appended bd)"
    and l: "links_from (bd_hash bd) (map as_appended bds')"
    by (simp_all add: as_appended_hash)
  let ?g = "g\<lparr>chain := chain g @ [as_appended bd]\<rparr>"
  have "dump_loop ?g es = Inr (?g\<lparr>chain := chain ?g @ map as_appended bds'\<rparr>)"
    by (rule Cons.IH [OF _ _ m l]) (simp_all add: as_appended_hash)
  then show ?case
    using dump_loop_step [OF Cons.prems(1,2) re, of es] ok by (simp add: bds)
qed

lemma dump_loop_sound:
  assumes "chain g \<noteq> []" and "hash (last (chain g)) = Some h" and "dump_loop g es = Inr g'"
  shows "\<exists>bds. map read_entry es = map Inr bds \<and> links_from h (map as_appended bds) \<and>
           g' = g\<lparr>chain := chain g @ map as_appended bds\<rparr>"
  using assms
proof (induction es arbitrary: g h)
  case Nil
  then show ?case by simp
next
  case (Cons e es)
  from Cons.prems(3) obtain bd where re: "read_entry e = Inr bd"
    by (cases "read_entry e") auto
  let ?g = "g\<lparr>chain := chain g @ [as_appended bd]\<rparr>"
  from Cons.prems(3) dump_loop_step [OF Cons.prems(1,2) re, of es]
  have ok: "block_ok h (as_appended bd)" and l: "dump_loop ?g es = Inr g'"
    by (simp_all split: if_splits)
  have "\<exists>bds. map read_entry es = map Inr bds \<and> links_from (bd_hash bd) (map as_appended bds) \<and>
           g' = ?g\<lparr>chain := chain ?g @ map as_appended bds\<rparr>"
    by (rule Cons.IH [OF _ _ l]) (simp_all add: as_appended_hash)
  then obtain bds where b: "map read_entry es = map Inr bds"
    "links_from (bd_hash bd) (map as_appended bds)" "g' = ?g\<lparr>chain := chain ?g @ map as_appended bds\<rparr>"
    by blast
  show ?case
    using re ok b by (intro exI [of _ "bd # bds"]) (simp add: as_appended_hash)
qed

lemma genesis_chain_facts:
  "chain (create_genesis_block Blockchain) = [genesis_block]"
  "unconfirmed_data (create_genesis_block Blockchain) = []"
  "hash genesis_block = Some (compute_hash (Block 0 [] (JInt 0) ''0'' 0))"
  "index genesis_block = 0"
  by (simp_all add: create_genesis_block_def Blockchain_def genesis_block_def Block_def)

lemma genesis_head:
  "chain (create_genesis_block Blockchain) \<noteq> []"
  "hash (last (chain (create_genesis_block Blockchain))) = Some (stored_hash genesis_block)"
  by (simp_all add: genesis_chain_facts stored_hash_def)

text \<open>
  Claim C6. \<open>create_chain_from_dump\<close> returns a chain exactly when every entry of the dump
  after the first has its six keys and the blocks rebuilt from them pass one after the
  other, the first against the hash of a fresh genesis block and each next one against the
  hash of the one before it; the chain returned is then the fresh genesis block followed
  by all of them, each appended by a call of \<open>add_block\<close> that returned \<open>True\<close>. As soon as
  one append is refused the call raises the exception of the tampered dump, and an entry
  that lacks a key raises \<^verbatim>\<open>KeyError\<close>: either way no chain is returned, whatever the
  entries before and after it are.
\<close>

theorem create_chain_from_dump_spec:
  "(map read_entry (drop 1 chain_dump) = map Inr bds \<and>
    links_from (stored_hash genesis_block) (map as_appended bds) \<longrightarrow>
      create_chain_from_dump chain_dump =
        Inr \<lparr>unconfirmed_data = [], chain = genesis_block # map as_appended bds\<rparr>) \<and>
   (create_chain_from_dump chain_dump = Inr g \<longrightarrow>
      (\<exists>bds. map read_entry (drop 1 chain_dump) = map Inr bds \<and>
          links_from (stored_hash genesis_block) (map as_appended bds) \<and>
          g = \<lparr>unconfirmed_data = [], chain = genesis_block # map as_appended bds\<rparr> \<and>
          (\<forall>k<length bds.
              \<exists>g1 g2. dump_loop (create_genesis_block Blockchain) (take k (drop 1 chain_dump)) = Inr g1 \<and>
                add_block g1 (rebuild (bds ! k)) (bd_hash (bds ! k)) = Inr (True, g2)))) \<and>
   (drop 1 chain_dump = pre @ e # rest \<and>
    dump_loop (create_genesis_block Blockchain) pre = Inr g1 \<and> read_entry e = Inr bd \<and>
    add_block g1 (rebuild bd) (bd_hash bd) = Inr (False, g2) \<longrightarrow>
      create_chain_from_dump chain_dump = Inl TamperedChainDump) \<and>
   (drop 1 chain_dump = pre @ e # rest \<and>
    dump_loop (create_genesis_block Blockchain) pre = Inr g1 \<and> read_entry e = Inl err \<longrightarrow>
      create_chain_from_dump chain_dump = Inl KeyError)"
proof (intro conjI impI)
  assume a: "map read_entry (drop 1 chain_dump) = map Inr bds \<and>
    links_from (stored_hash genesis_block) (map as_appended bds)"
  from dump_loop_complete [OF genesis_head, of "drop 1 chain_dump" bds] a
  show "create_chain_from_dump chain_dump =
        Inr \<lparr>unconfirmed_data = [], chain = genesis_block # map as_appended bds\<rparr>"
    by (simp add: create_chain_from_dump_def create_genesis_block_def Blockchain_def)
next
  assume a: "create_chain_from_dump chain_dump = Inr g"
  let ?ds = "drop 1 chain_dump"
  from a have l: "dump_loop (create_genesis_block Blockchain) ?ds = Inr g"
    by (simp add: create_chain_from_dump_def)
  from dump_loop_sound [OF genesis_head l] obtain bds where b:
    "map read_entry ?ds = map Inr bds" "links_from (stored_hash genesis_block) (map as_appended bds)"
    "g = (create_genesis_block Blockchain)\<lparr>chain := chain (create_genesis_block Blockchain) @ map as_appended bds\<rparr>"
    by blast
  have g: "g = \<lparr>unconfirmed_data = [], chain = genesis_block # map as_appended bds\<rparr>"
    by (simp add: b(3) create_genesis_block_def Blockchain_def)
  have len: "length ?ds = length bds"
    using map_eq_imp_length_eq [OF b(1)] .
  have each: "\<exists>g1 g2. dump_loop (create_genesis_block Blockchain) (take k ?ds) = Inr g1 \<and>
                add_block g1 (rebuild (bds ! k)) (bd_hash (bds ! k)) = Inr (True, g2)"
    if k: "k < length bds" for k
  proof -
    from k len have kd: "k < length ?ds" by simp
    have split: "?ds = take k ?ds @ (?ds ! k) # drop (Suc k) ?ds"
      using kd by (rule id_take_nth_drop)
    have re: "read_entry (?ds ! k) = Inr (bds ! k)"
      using b(1) k kd by (metis nth_map)
    from l have "dump_loop (create_genesis_block Blockchain) (take k ?ds @ (?ds ! k) # drop (Suc k) ?ds) = Inr g"
      using split by simp
    then obtain g1 where g1: "dump_loop (create_genesis_block Blockchain) (take k ?ds) = Inr g1"
      and r: "dump_loop g1 ((?ds ! k) # drop (Suc k) ?ds) = Inr g"
      by (auto simp: dump_loop_append split: sum.splits)
    from r re obtain g2 where "add_block g1 (rebuild (bds ! k)) (bd_hash (bds ! k)) = Inr (True, g2)"
      by (auto simp: rebuild_def split: sum.splits if_splits)
    with g1 show ?thesis by blast
  qed
  show "\<exists>bds. map read_entry (drop 1 chain_dump) = map Inr bds \<and>
          links_from (stored_hash genesis_block) (map as_appended bds) \<and>
          g = \<lparr>unconfirmed_data = [], chain = genesis_block # map as_appended bds\<rparr> \<and>
          (\<forall>k<length bds.
              \<exists>g1 g2. dump_loop (create_genesis_block Blockchain) (take k (drop 1 chain_dump)) = Inr g1 \<and>
                add_block g1 (rebuild (bds ! k)) (bd_hash (bds ! k)) = Inr (True, g2))"
    using b(1,2) g each by blast
next
  assume "drop 1 chain_dump = pre @ e # rest \<and>
    dump_loop (create_genesis_block Blockchain) pre = Inr g1 \<and> read_entry e = Inr bd \<and>
    add_block g1 (rebuild bd) (bd_hash bd) = Inr (False, g2)"
  then show "create_chain_from_dump chain_dump = Inl TamperedChainDump"
    by (simp add: create_chain_from_dump_def dump_loop_append rebuild_def)
next
  assume a: "drop 1 chain_dump = pre @ e # rest \<and>
    dump_loop (create_genesis_block Blockchain) pre = Inr g1 \<and> read_entry e = Inl err"
  then have "err = KeyError"
    by (auto simp: read_entry_def split: option.splits)
  with a show "create_chain_from_dump chain_dump = Inl KeyError"
    by (simp add: create_chain_from_dump_def dump_loop_append)
qed

section \<open>\<open>consensus\<close>\<close>

lemma check_chain_validity_dicts:
  "check_chain_validity [0..<length c] (json_store c) =
     (if c = [] then Inr (True, json_store c) else Inl AttributeError)"
  by (cases c) (simp_all add: check_chain_validity_def json_store_def upt_conv_Cons del: upt_Suc)

lemma check_chain_validity_Nil: "check_chain_validity [] s = Inr (True, s)"
  by (simp add: check_chain_validity_def)

lemma consensus_loop_longest:
  assumes "consensus_loop cur l rs = Inr (cur', l')" and "l = None \<or> l = Some []"
  shows "l' = None \<or> l' = Some []"
  using assms
proof (induction rs arbitrary: cur l)
  case Nil
  then show ?case by auto
next
  case (Cons r rs)
  show ?case
  proof (cases "resp_length r > cur \<and> resp_chain r = []")
    case True
    with Cons.prems(1) have "consensus_loop (resp_length r) (Some []) rs = Inr (cur', l')"
      by (simp add: check_chain_validity_Nil)
    then show ?thesis by (rule Cons.IH) simp
  next
    case False
    with Cons.prems(1) have "consensus_loop cur l rs = Inr (cur', l')"
      by (auto simp: check_chain_validity_dicts check_chain_validity_Nil split: if_splits)
    then show ?thesis using Cons.prems(2) by (rule Cons.IH)
  qed
qed

lemma consensus_result:
  assumes "consensus bc peers = Inr (r, g)"
  shows "r = False \<and> g = BlockchainObj bc"
proof -
  from assms obtain cur l where l: "consensus_loop (int (length (chain bc))) None peers = Inr (cur, l)"
    by (auto simp: consensus_def split: sum.splits)
  from consensus_loop_longest [OF l] have "l = None \<or> l = Some []" by simp
  with assms l show ?thesis by (auto simp: consensus_def)
qed

lemma consensus_raises:
  assumes "int (length (chain bc)) < resp_length r" and "resp_chain r \<noteq> []"
  shows "consensus bc (r # rs) = Inl AttributeError"
  using assms by (simp add: consensus_def check_chain_validity_dicts)

lemma consensus_error:
  assumes "consensus bc peers = Inl e"
  shows "e = AttributeError"
proof -
  have "consensus_loop cur l rs = Inl e \<Longrightarrow> e = AttributeError" for cur l rs
  proof (induction rs arbitrary: cur l)
    case Nil
    then show ?case by simp
  next
    case (Cons r rs)
    then show ?case
      by (auto simp: check_chain_validity_dicts check_chain_validity_Nil split: if_splits)
  qed
  with assms show ?thesis
    by (auto simp: consensus_def split: sum.splits option.splits if_splits)
qed

section \<open>Block indices\<close>

lemma indices_ok_snoc:
  assumes "indices_ok c" and "index b = index (last c) + 1"
  shows "indices_ok (c @ [b])"
proof -
  from assms(1) have ne: "c \<noteq> []" and m: "map index c = map int [0..<length c]"
    by (simp_all add: indices_ok_def)
  have "index (last c) = last (map index c)" using ne by (simp add: last_map)
  also have "\<dots> = last (map int [0..<length c])" by (simp only: m)
  also have "\<dots> = int (length c - 1)" using ne by (simp add: last_map)
  finally have "index b = int (length c)" using assms(2) ne by (cases c) simp_all
  then show ?thesis using m by (simp add: indices_ok_def)
qed

lemma reachable_indices: "reachable next_index bc \<Longrightarrow> indices_ok (chain bc)"
proof (induction rule: reachable.induct)
  case start
  show ?case by (simp add: indices_ok_def genesis_chain_facts)
next
  case (new_data bc d)
  then show ?case by (simp add: add_new_data_def)
next
  case (mined bc now r bc')
  show ?case
  proof (cases "unconfirmed_data bc = []")
    case True
    with mined show ?thesis by (simp add: mine_empty)
  next
    case False
    from mine_result [OF False mined(2)] obtain lb lh p nb where m:
      "last_block bc = Inr lb" "hash lb = Some lh"
      "proof_of_work (Block (index lb + 1) (unconfirmed_data bc) now lh 0) = Some (p, nb)"
      "bc' = bc\<lparr>chain := chain bc @ [nb\<lparr>hash := Some p\<rparr>], unconfirmed_data := []\<rparr>"
      by blast
    from proof_of_work_sound [OF m(3)] have "index nb = index lb + 1"
      by (auto simp: Block_def)
    moreover from m(1) have "lb = last (chain bc)"
      by (auto simp: last_block_def split: if_splits)
    ultimately have "indices_ok (chain bc @ [nb\<lparr>hash := Some p\<rparr>])"
      using mined.IH by (intro indices_ok_snoc) simp_all
    then show ?thesis by (simp add: m(4))
  qed
next
  case (added bc b p r bc')
  from add_block_result [OF added(3)] show ?case
    using added.IH added(2) indices_ok_snoc [of "chain bc" "b\<lparr>hash := Some p\<rparr>"]
    by (auto simp: next_index_def split: if_splits)
next
  case (agreed bc peers r bc')
  from consensus_result [OF agreed(2)] agreed.IH show ?case by simp
qed

text \<open>
  Claim C8, as amended. On every chain reachable from \<open>create_genesis_block\<close> by
  \<open>add_new_data\<close>, \<open>mine\<close>, \<open>consensus\<close> and \<open>add_block\<close> of blocks whose index is the
  index of the head plus one, the genesis block is first with index 0 and the block at
  position \<open>i\<close> has index \<open>i\<close>. (\<open>add_block\<close> does not look at the index of the block it
  is given.)
\<close>

theorem reachable_indices_consecutive:
  "reachable next_index bc \<Longrightarrow>
     chain bc \<noteq> [] \<and> index (hd (chain bc)) = 0 \<and>
     (\<forall>i<length (chain bc). index (chain bc ! i) = int i)"
proof -
  assume "reachable next_index bc"
  from reachable_indices [OF this] have ne: "chain bc \<noteq> []"
    and m: "map index (chain bc) = map int [0..<length (chain bc)]"
    by (simp_all add: indices_ok_def)
  have nth: "index (chain bc ! i) = int i" if "i < length (chain bc)" for i
  proof -
    have "index (chain bc ! i) = map index (chain bc) ! i" using that by simp
    also have "\<dots> = map int [0..<length (chain bc)] ! i" by (simp only: m)
    also have "\<dots> = int i" using that by simp
    finally show ?thesis .
  qed
  have "index (hd (chain bc)) = 0" using nth [of 0] ne by (simp add: hd_conv_nth)
  with ne nth show ?thesis by blast
qed

section \<open>What the digest reads\<close>

text \<open>
  Claim C1, as amended. \<open>compute_hash\<close> digests the whole attribute dictionary of the
  block. Two blocks that agree on index, payload, timestamp, previous_hash and nonce
  receive the same digest when the attribute \<^verbatim>\<open>hash\<close> has been removed from both, and when
  both hold the same value in it; the dictionary has the key \<^verbatim>\<open>hash\<close> exactly when the
  attribute is set, with the stored value.
\<close>

theorem compute_hash_input:
  "(index b1 = index b2 \<and> data b1 = data b2 \<and> timestamp b1 = timestamp b2 \<and>
    previous_hash b1 = previous_hash b2 \<and> nonce b1 = nonce b2 \<longrightarrow>
      compute_hash (b1\<lparr>hash := None\<rparr>) = compute_hash (b2\<lparr>hash := None\<rparr>) \<and>
      (hash b1 = hash b2 \<longrightarrow> compute_hash b1 = compute_hash b2)) \<and>
   map_of (block_dict b1) ''hash'' = map_option JStr (hash b1)"
proof (intro conjI impI)
  assume a: "index b1 = index b2 \<and> data b1 = data b2 \<and> timestamp b1 = timestamp b2 \<and>
    previous_hash b1 = previous_hash b2 \<and> nonce b1 = nonce b2"
  then have "b1\<lparr>hash := None\<rparr> = b2\<lparr>hash := None\<rparr>" by (cases b1, cases b2) simp
  then show "compute_hash (b1\<lparr>hash := None\<rparr>) = compute_hash (b2\<lparr>hash := None\<rparr>)" by simp
  assume "hash b1 = hash b2"
  with a have "b1 = b2" by (cases b1, cases b2) simp
  then show "compute_hash b1 = compute_hash b2" by simp
next
  show "map_of (block_dict b1) ''hash'' = map_option JStr (hash b1)"
    by (simp add: block_dict_def split: option.splits)
qed

section \<open>Evaluating the digest\<close>

text \<open>
  The definitions the simplifier unfolds to write the text of a block.
\<close>

lemmas string_eval = block_string_def block_dict_def Block_def dumps_str_def escape_char_def str_int_def
  str_nat.simps digit_char_def hex_digit_def mined_candidate_def skipping_block_def sample_entry_def sample_now_def

lemma zeros_eval: "replicate difficulty CHR ''0'' = ''00''"
  by (simp add: difficulty_def numeral_2_eq_2)

text \<open>
  The first test vector of the standard.
\<close>

lemma sha256_abc:
  "sha256_hexdigest (encode ''abc'') = ''ba7816bf8f01cfea414140de5dae2223b00361a396177a9cb410ff61f20015ad''"
  by code_simp

text \<open>
  SHA-256 of the six texts below, evaluated with the code equations.
\<close>

lemma sha_instances:
  "sha256_hexdigest (encode
     ''{\"data\": [], \"index\": 0, \"nonce\": 0, \"previous_hash\": \"0\", \"timestamp\": 0}'') =
     ''387464254e78af2350d472f48b429b090b46f0b3066b222fb482a8edfdb601ef'' \<and>
   sha256_hexdigest (encode
     ''{\"data\": [], \"hash\": \"387464254e78af2350d472f48b429b090b46f0b3066b222fb482a8edfdb601ef\", \"index\": 0, \"nonce\": 0, \"previous_hash\": \"0\", \"timestamp\": 0}'') =
     ''9ef502ec95a14979ce8c67d31853d60b9ba2d40b21655e7d7a860d442cb0b868'' \<and>
   sha256_hexdigest (encode
     ''{\"data\": [{\"author\": \"a\", \"content\": \"hi\"}], \"index\": 1, \"nonce\": 0, \"previous_hash\": \"387464254e78af2350d472f48b429b090b46f0b3066b222fb482a8edfdb601ef\", \"timestamp\": 1700000604.5}'') =
     ''f9843fddf1c3bacaec2916e435fdd4c915d11b244f1b482acec56f2bf645f738'' \<and>
   sha256_hexdigest (encode
     ''{\"data\": [{\"author\": \"a\", \"content\": \"hi\"}], \"index\": 1, \"nonce\": 1, \"previous_hash\": \"387464254e78af2350d472f48b429b090b46f0b3066b222fb482a8edfdb601ef\", \"timestamp\": 1700000604.5}'') =
     ''0013927cee4dfefc91d99d03ac76ddb3a7a13b68ebd8a656770c030f23010745'' \<and>
   sha256_hexdigest (encode
     ''{\"data\": [], \"index\": 5, \"nonce\": 5, \"previous_hash\": \"387464254e78af2350d472f48b429b090b46f0b3066b222fb482a8edfdb601ef\", \"timestamp\": 0}'') =
     ''006a4f49baa4d58aaca9de64268b049f7405f4acaa3f9fff90e6b9608f8a8630'' \<and>
   sha256_hexdigest (encode
     ''{\"data\": [], \"index\": 0, \"nonce\": 99, \"previous_hash\": \"0\", \"timestamp\": 0}'') =
     ''00a18d4f06cf49d1f6772323c60c0a1a17f16dce5626e9beb7938870d5460015''"
  by code_simp

text \<open>
  The genesis block: its text, and the digest \<open>create_genesis_block\<close> stores.
\<close>

lemma genesis_string:
  "block_string (Block 0 [] (JInt 0) ''0'' 0) =
     ''{\"data\": [], \"index\": 0, \"nonce\": 0, \"previous_hash\": \"0\", \"timestamp\": 0}''"
  by (simp add: string_eval)

lemma genesis_digest:
  "compute_hash (Block 0 [] (JInt 0) ''0'' 0) = ''387464254e78af2350d472f48b429b090b46f0b3066b222fb482a8edfdb601ef''"
  by (simp only: compute_hash_def genesis_string sha_instances [THEN conjunct1])

lemma genesis_block_eq:
  "genesis_block =
     \<lparr>index = 0, data = [], timestamp = JInt 0, previous_hash = ''0'', nonce = 0,
      hash = Some ''387464254e78af2350d472f48b429b090b46f0b3066b222fb482a8edfdb601ef''\<rparr>"
  by (simp add: genesis_block_def genesis_digest) (simp add: Block_def)

text \<open>
  The genesis block once its hash is stored: the text has one more member.
\<close>

lemma stored_genesis_string:
  "block_string (genesis_block) =
     ''{\"data\": [], \"hash\": \"387464254e78af2350d472f48b429b090b46f0b3066b222fb482a8edfdb601ef\", \"index\": 0, \"nonce\": 0, \"previous_hash\": \"0\", \"timestamp\": 0}''"
  by (simp add: string_eval genesis_block_eq)

lemma stored_genesis_digest:
  "compute_hash (genesis_block) = ''9ef502ec95a14979ce8c67d31853d60b9ba2d40b21655e7d7a860d442cb0b868''"
  by (simp only: compute_hash_def stored_genesis_string sha_instances [THEN conjunct2, THEN conjunct1])

text \<open>
  The candidate mined from the sample entry, at nonce 0 and at nonce 1.
\<close>

lemma candidate0_string:
  "block_string (mined_candidate) =
     ''{\"data\": [{\"author\": \"a\", \"content\": \"hi\"}], \"index\": 1, \"nonce\": 0, \"previous_hash\": \"387464254e78af2350d472f48b429b090b46f0b3066b222fb482a8edfdb601ef\", \"timestamp\": 1700000604.5}''"
  by (simp add: string_eval)

lemma candidate0_digest:
  "compute_hash (mined_candidate) = ''f9843fddf1c3bacaec2916e435fdd4c915d11b244f1b482acec56f2bf645f738''"
  by (simp only: compute_hash_def candidate0_string sha_instances [THEN conjunct2, THEN conjunct2, THEN conjunct1])

lemma candidate1_string:
  "block_string (mined_candidate\<lparr>nonce := 1\<rparr>) =
     ''{\"data\": [{\"author\": \"a\", \"content\": \"hi\"}], \"index\": 1, \"nonce\": 1, \"previous_hash\": \"387464254e78af2350d472f48b429b090b46f0b3066b222fb482a8edfdb601ef\", \"timestamp\": 1700000604.5}''"
  by (simp add: string_eval)

lemma candidate1_digest:
  "compute_hash (mined_candidate\<lparr>nonce := 1\<rparr>) = ''0013927cee4dfefc91d99d03ac76ddb3a7a13b68ebd8a656770c030f23010745''"
  by (simp only: compute_hash_def candidate1_string sha_instances [THEN conjunct2, THEN conjunct2, THEN conjunct2, THEN conjunct1])

text \<open>
  The block with index 5, and the forged first block.
\<close>

lemma skipping_string:
  "block_string (skipping_block) =
     ''{\"data\": [], \"index\": 5, \"nonce\": 5, \"previous_hash\": \"387464254e78af2350d472f48b429b090b46f0b3066b222fb482a8edfdb601ef\", \"timestamp\": 0}''"
  by (simp add: string_eval)

lemma skipping_digest:
  "compute_hash (skipping_block) = ''006a4f49baa4d58aaca9de64268b049f7405f4acaa3f9fff90e6b9608f8a8630''"
  by (simp only: compute_hash_def skipping_string sha_instances [THEN conjunct2, THEN conjunct2, THEN conjunct2, THEN conjunct2, THEN conjunct1])

lemma forged_string:
  "block_string (Block 0 [] (JInt 0) ''0'' 99) =
     ''{\"data\": [], \"index\": 0, \"nonce\": 99, \"previous_hash\": \"0\", \"timestamp\": 0}''"
  by (simp add: string_eval)

lemma forged_digest:
  "compute_hash (Block 0 [] (JInt 0) ''0'' 99) = ''00a18d4f06cf49d1f6772323c60c0a1a17f16dce5626e9beb7938870d5460015''"
  by (simp only: compute_hash_def forged_string sha_instances [THEN conjunct2, THEN conjunct2, THEN conjunct2, THEN conjunct2, THEN conjunct2])

section \<open>The sample runs\<close>

lemma pow_candidate:
  "proof_of_work mined_candidate = Some (''0013927cee4dfefc91d99d03ac76ddb3a7a13b68ebd8a656770c030f23010745'', mined_candidate\<lparr>nonce := 1\<rparr>)"
proof -
  have z: "mined_candidate\<lparr>nonce := 0\<rparr> = mined_candidate" and n: "nonce mined_candidate = 0"
    by (simp_all add: mined_candidate_def Block_def)
  have s0: "\<not> startswith (compute_hash mined_candidate) (replicate difficulty CHR ''0'')"
    by (simp add: candidate0_digest zeros_eval startswith_def)
  have s1: "startswith (compute_hash (mined_candidate\<lparr>nonce := 1\<rparr>)) (replicate difficulty CHR ''0'')"
    by (simp add: candidate1_digest zeros_eval startswith_def)
  have "pow_loop mined_candidate = pow_loop (mined_candidate\<lparr>nonce := 1\<rparr>)"
    by (subst pow_loop.simps) (simp add: s0 n)
  also have "\<dots> = Some (compute_hash (mined_candidate\<lparr>nonce := 1\<rparr>), mined_candidate\<lparr>nonce := 1\<rparr>)"
    by (subst pow_loop.simps) (simp add: s1)
  finally show ?thesis by (simp add: proof_of_work_def z candidate1_digest)
qed

lemma waiting_node_facts:
  "unconfirmed_data waiting_node = [sample_entry]" "chain waiting_node = [genesis_block]"
  by (simp_all add: waiting_node_def add_new_data_def genesis_chain_facts)

lemma mine_sample: "mine waiting_node sample_now = Some (Inr (True, mined_node))"
proof -
  have ne: "unconfirmed_data waiting_node \<noteq> []" and c: "chain waiting_node \<noteq> []"
    by (simp_all add: waiting_node_facts)
  have gh: "hash (last (chain waiting_node)) = Some ''387464254e78af2350d472f48b429b090b46f0b3066b222fb482a8edfdb601ef''"
    by (simp add: waiting_node_facts genesis_block_eq)
  have cand: "Block (index (last (chain waiting_node)) + 1) (unconfirmed_data waiting_node) sample_now ''387464254e78af2350d472f48b429b090b46f0b3066b222fb482a8edfdb601ef'' 0
      = mined_candidate"
    by (simp add: mined_candidate_def genesis_block_eq waiting_node_facts)
  have z: "mined_candidate\<lparr>nonce := int 1\<rparr> = mined_candidate\<lparr>nonce := 1\<rparr>"
    by simp
  have w: "startswith (compute_hash ((Block (index (last (chain waiting_node)) + 1)
        (unconfirmed_data waiting_node) sample_now ''387464254e78af2350d472f48b429b090b46f0b3066b222fb482a8edfdb601ef'' 0)\<lparr>nonce := int 1\<rparr>)) (replicate difficulty CHR ''0'')"
    by (simp only: cand z) (simp add: candidate1_digest zeros_eval startswith_def)
  from mine_returns [OF ne c gh w] obtain bc' where m: "mine waiting_node sample_now = Some (Inr (True, bc'))"
    by blast
  from mine_result [OF ne m] obtain lb lh p nb where r:
    "last_block waiting_node = Inr lb" "hash lb = Some lh"
    "proof_of_work (Block (index lb + 1) (unconfirmed_data waiting_node) sample_now lh 0) = Some (p, nb)"
    "bc' = waiting_node\<lparr>chain := chain waiting_node @ [nb\<lparr>hash := Some p\<rparr>], unconfirmed_data := []\<rparr>"
    by blast
  from r(1) have lb: "lb = last (chain waiting_node)" by (auto simp: last_block_def split: if_splits)
  with r(2) gh have lh: "lh = ''387464254e78af2350d472f48b429b090b46f0b3066b222fb482a8edfdb601ef''" by simp
  from r(3) have "proof_of_work mined_candidate = Some (p, nb)" by (simp only: lb lh cand)
  with pow_candidate have pn: "p = ''0013927cee4dfefc91d99d03ac76ddb3a7a13b68ebd8a656770c030f23010745''" "nb = mined_candidate\<lparr>nonce := 1\<rparr>" by simp_all
  have "bc' = mined_node"
    by (simp add: r(4) pn mined_node_def mined_block_def waiting_node_def add_new_data_def
        create_genesis_block_def Blockchain_def)
  with m show ?thesis by simp
qed

lemma add_skipping:
  "add_block (create_genesis_block Blockchain) skipping_block ''006a4f49baa4d58aaca9de64268b049f7405f4acaa3f9fff90e6b9608f8a8630'' = Inr (True, skipped_node)"
proof -
  have ne: "chain (create_genesis_block Blockchain) \<noteq> []"
    and h: "hash (last (chain (create_genesis_block Blockchain))) = Some ''387464254e78af2350d472f48b429b090b46f0b3066b222fb482a8edfdb601ef''"
    by (simp_all add: genesis_chain_facts genesis_block_eq)
  have p: "previous_hash skipping_block = ''387464254e78af2350d472f48b429b090b46f0b3066b222fb482a8edfdb601ef''" by (simp add: skipping_block_def Block_def)
  show ?thesis
    by (subst add_block_cases [OF ne h])
      (simp add: p skipping_digest zeros_eval startswith_def skipped_node_def
        create_genesis_block_def Blockchain_def)
qed


lemma sample_store_at:
  "sample_store 0 = BlockObj forged_first" "sample_store 1 = BlockObj genesis_block"
  "sample_store 2 = DictObj (block_json mined_block)" "sample_store (Suc 0) = BlockObj genesis_block"
  by (simp_all add: sample_store_def)

lemma forged_ok: "hash forged_first = Some ''00a18d4f06cf49d1f6772323c60c0a1a17f16dce5626e9beb7938870d5460015''"
  "block_ok ''0'' forged_first" "\<not> block_ok ''00a18d4f06cf49d1f6772323c60c0a1a17f16dce5626e9beb7938870d5460015'' forged_first"
  using forged_digest
  by (simp_all add: forged_first_def block_ok_def stored_hash_def is_valid_proof_def zeros_eval
      startswith_def Block_def)

lemma genesis_not_ok: "\<not> block_ok prev genesis_block"
  by (simp add: block_ok_def stored_hash_def genesis_block_eq is_valid_proof_def zeros_eval startswith_def)

lemma forged_passes: "check_chain_validity [0] sample_store = Inr (True, sample_store)"
  unfolding check_chain_validity_def
  by (subst check_chain_loop_step [where s = sample_store and a = 0, OF sample_store_at(1) forged_ok(1)]) (simp add: forged_ok)

lemma forged_then_genesis:
  "check_chain_validity [0, 1] sample_store =
     Inr (False, sample_store(1 := BlockObj (Block 0 [] (JInt 0) ''0'' 0)))"
proof -
  have h: "hash genesis_block = Some ''387464254e78af2350d472f48b429b090b46f0b3066b222fb482a8edfdb601ef''"
    and g: "genesis_block\<lparr>hash := None\<rparr> = Block 0 [] (JInt 0) ''0'' 0"
    by (simp_all add: genesis_block_eq Block_def)
  show ?thesis
    unfolding check_chain_validity_def
    by (subst check_chain_loop_step [where s = sample_store and a = 0, OF sample_store_at(1) forged_ok(1)], simp only: forged_ok if_True,
        subst check_chain_loop_stop [where s = sample_store and a = 1, OF sample_store_at(2) h genesis_not_ok]) (simp_all add: sample_store_at g)
qed

lemma forged_twice:
  "check_chain_validity [0, 0] sample_store =
     Inr (False, sample_store(0 := BlockObj (forged_first\<lparr>hash := None\<rparr>)))"
  unfolding check_chain_validity_def
  by (subst check_chain_loop_step [where s = sample_store and a = 0, OF sample_store_at(1) forged_ok(1)], simp only: forged_ok if_True,
      subst check_chain_loop_stop [where s = sample_store and a = 0, OF sample_store_at(1) forged_ok(1,3)]) simp

lemma mined_block_ok: "block_ok (stored_hash genesis_block) (as_appended (block_json mined_block))"
  by (simp add: block_ok_def stored_hash_def genesis_block_eq as_appended_def rebuild_def block_json_def
      mined_block_def mined_candidate_def Block_def is_valid_proof_def zeros_eval startswith_def
      candidate1_digest [unfolded mined_candidate_def Block_def, simplified])

section \<open>Instances of the theorems\<close>

text \<open>
  Claim C1 as first stated fails: the genesis block as \<open>create_genesis_block\<close> stores it,
  and a block with the same five fields and no attribute \<^verbatim>\<open>hash\<close>, have different
  digests.
\<close>

theorem compute_hash_reads_hash_attribute:
  "index genesis_block = index (Block 0 [] (JInt 0) ''0'' 0) \<and>
   data genesis_block = data (Block 0 [] (JInt 0) ''0'' 0) \<and>
   timestamp genesis_block = timestamp (Block 0 [] (JInt 0) ''0'' 0) \<and>
   previous_hash genesis_block = previous_hash (Block 0 [] (JInt 0) ''0'' 0) \<and>
   nonce genesis_block = nonce (Block 0 [] (JInt 0) ''0'' 0) \<and>
   compute_hash genesis_block \<noteq> compute_hash (Block 0 [] (JInt 0) ''0'' 0)"
  by (simp add: stored_genesis_digest genesis_digest) (simp add: genesis_block_def Block_def)

text \<open>
  Claim C1 as amended, on the same two blocks.
\<close>

theorem compute_hash_input_witness:
  "compute_hash (genesis_block\<lparr>hash := None\<rparr>) = compute_hash ((Block 0 [] (JInt 0) ''0'' 0)\<lparr>hash := None\<rparr>) \<and>
   map_of (block_dict genesis_block) ''hash'' = Some (JStr ''387464254e78af2350d472f48b429b090b46f0b3066b222fb482a8edfdb601ef'') \<and>
   map_of (block_dict (Block 0 [] (JInt 0) ''0'' 0)) ''hash'' = None"
  using compute_hash_input [of genesis_block "Block 0 [] (JInt 0) ''0'' 0"]
    compute_hash_input [of "Block 0 [] (JInt 0) ''0'' 0" genesis_block]
  by (simp add: genesis_block_eq) (simp add: Block_def)

text \<open>
  Claim C3 on the fresh node: a proof without leading zeros, a proof that is not the
  digest of the block, and a block that does not link to the head are refused; the block
  with index 5 and its digest are appended.
\<close>

theorem add_block_spec_witness:
  "chain (create_genesis_block Blockchain) \<noteq> [] \<and>
   hash (last (chain (create_genesis_block Blockchain))) = Some ''387464254e78af2350d472f48b429b090b46f0b3066b222fb482a8edfdb601ef'' \<and>
   add_block (create_genesis_block Blockchain) skipping_block ''387464254e78af2350d472f48b429b090b46f0b3066b222fb482a8edfdb601ef'' = Inr (False, create_genesis_block Blockchain) \<and>
   add_block (create_genesis_block Blockchain) mined_block ''387464254e78af2350d472f48b429b090b46f0b3066b222fb482a8edfdb601ef'' = Inr (False, create_genesis_block Blockchain) \<and>
   add_block (create_genesis_block Blockchain) (skipping_block\<lparr>previous_hash := ''0''\<rparr>) ''006a4f49baa4d58aaca9de64268b049f7405f4acaa3f9fff90e6b9608f8a8630''
     = Inr (False, create_genesis_block Blockchain) \<and>
   (\<exists>bc'. add_block (create_genesis_block Blockchain) skipping_block ''006a4f49baa4d58aaca9de64268b049f7405f4acaa3f9fff90e6b9608f8a8630'' = Inr (True, bc') \<and>
      chain bc' = [genesis_block, skipping_block\<lparr>hash := Some ''006a4f49baa4d58aaca9de64268b049f7405f4acaa3f9fff90e6b9608f8a8630''\<rparr>])"
proof -
  have ne: "chain (create_genesis_block Blockchain) \<noteq> []"
    and h: "hash (last (chain (create_genesis_block Blockchain))) = Some ''387464254e78af2350d472f48b429b090b46f0b3066b222fb482a8edfdb601ef''"
    by (simp_all add: genesis_chain_facts genesis_block_eq)
  have p: "previous_hash skipping_block = ''387464254e78af2350d472f48b429b090b46f0b3066b222fb482a8edfdb601ef''" by (simp add: skipping_block_def Block_def)
  have z: "\<not> startswith ''387464254e78af2350d472f48b429b090b46f0b3066b222fb482a8edfdb601ef'' (replicate difficulty CHR ''0'')"
    "startswith ''006a4f49baa4d58aaca9de64268b049f7405f4acaa3f9fff90e6b9608f8a8630'' (replicate difficulty CHR ''0'')"
    by (simp_all add: zeros_eval startswith_def)
  show ?thesis
    using add_block_spec [OF ne h, of skipping_block "''387464254e78af2350d472f48b429b090b46f0b3066b222fb482a8edfdb601ef''"]
      add_block_spec [OF ne h, of mined_block "''387464254e78af2350d472f48b429b090b46f0b3066b222fb482a8edfdb601ef''"]
      add_block_spec [OF ne h, of "skipping_block\<lparr>previous_hash := ''0''\<rparr>" "''006a4f49baa4d58aaca9de64268b049f7405f4acaa3f9fff90e6b9608f8a8630''"]
      add_block_spec [OF ne h, of skipping_block "''006a4f49baa4d58aaca9de64268b049f7405f4acaa3f9fff90e6b9608f8a8630''"]
    by (auto simp: ne h p z skipping_digest genesis_chain_facts genesis_digest)
qed

text \<open>
  Claim C7 on the sample candidate: nonce 0 fails, nonce 1 wins.
\<close>

theorem proof_of_work_spec_witness:
  "proof_of_work mined_candidate = Some (''0013927cee4dfefc91d99d03ac76ddb3a7a13b68ebd8a656770c030f23010745'', mined_candidate\<lparr>nonce := 1\<rparr>) \<and>
   startswith ''0013927cee4dfefc91d99d03ac76ddb3a7a13b68ebd8a656770c030f23010745'' (replicate difficulty CHR ''0'') \<and>
   is_valid_proof (mined_candidate\<lparr>nonce := 1\<rparr>) ''0013927cee4dfefc91d99d03ac76ddb3a7a13b68ebd8a656770c030f23010745'' \<and>
   (\<exists>n. mined_candidate\<lparr>nonce := 1\<rparr> = mined_candidate\<lparr>nonce := int n\<rparr> \<and>
        (\<forall>m<n. \<not> startswith (compute_hash (mined_candidate\<lparr>nonce := int m\<rparr>)) (replicate difficulty CHR ''0'')))"
  using proof_of_work_spec [of mined_candidate "''0013927cee4dfefc91d99d03ac76ddb3a7a13b68ebd8a656770c030f23010745''" "mined_candidate\<lparr>nonce := 1\<rparr>"] pow_candidate
  by blast



text \<open>
  Claim C4 in the sample store: the forged first block alone is a valid sequence. The
  genesis block alone is not, its digest has no leading zeros, and the walk stops there
  without looking at the element after it, a JSON object, which has no attribute \<^verbatim>\<open>hash\<close>.
  The forged block twice is not valid either: the second does not link to the first.
\<close>

theorem check_chain_validity_spec_witness:
  "map sample_store [0] = map BlockObj [forged_first] \<and> hash forged_first \<noteq> None \<and>
   chain_valid_spec [forged_first] \<and>
   check_chain_validity [0] sample_store = Inr (True, sample_store) \<and>
   map sample_store [1] = map BlockObj [genesis_block] \<and> hash genesis_block \<noteq> None \<and>
   \<not> chain_valid_spec [genesis_block] \<and>
   sample_store 2 = DictObj (block_json mined_block) \<and>
   (\<exists>s'. check_chain_validity ([1] @ [2]) sample_store = Inr (False, s')) \<and>
   map sample_store [0, 0] = map BlockObj [forged_first, forged_first] \<and>
   \<not> chain_valid_spec [forged_first, forged_first]"
proof -
  have mf: "map sample_store [0] = map BlockObj [forged_first]"
    and mg: "map sample_store [1] = map BlockObj ([] @ [genesis_block])"
    and mt: "map sample_store [0, 0] = map BlockObj [forged_first, forged_first]"
    by (simp_all add: sample_store_at)
  have hf: "\<forall>b\<in>set [forged_first]. hash b \<noteq> None" "\<forall>b\<in>set [forged_first, forged_first]. hash b \<noteq> None"
    by (simp_all add: forged_ok)
  have hg: "\<forall>b\<in>set ([] @ [genesis_block]). hash b \<noteq> None" by (simp add: genesis_block_eq)
  from check_chain_validity_spec [of sample_store "[0]" "[forged_first]"] mf hf forged_passes
  have vf: "chain_valid_spec [forged_first]" by simp
  from check_chain_validity_spec [of sample_store "[0, 0]" "[forged_first, forged_first]"] mt hf forged_twice
  have vt: "\<not> chain_valid_spec [forged_first, forged_first]" by simp
  have vg: "\<not> chain_valid_spec [genesis_block]"
    by (simp add: chain_valid_spec_links genesis_not_ok)
  have ve: "chain_valid_spec []" by (simp add: chain_valid_spec_def)
  from check_chain_validity_spec [of sample_store "[1]" _ "[]" genesis_block "[2]"] mg hg vg ve
  have "\<exists>s'. check_chain_validity ([1] @ [2]) sample_store = Inr (False, s')" by simp
  with vf vt vg mf mg mt hf hg forged_passes sample_store_at(3) show ?thesis by simp
qed

text \<open>
  Claim C10 as first stated fails on a sequence that holds one object twice. The forged
  block passes at the first position and fails at the second, where it does not link to
  itself; the call removes the hash of that object, and the block before the failing one,
  the same object, is left without its hash.
\<close>

theorem check_chain_validity_strips_shared_block:
  "sample_store 0 = BlockObj forged_first \<and>
   hash forged_first = Some ''00a18d4f06cf49d1f6772323c60c0a1a17f16dce5626e9beb7938870d5460015'' \<and>
   check_chain_validity [0] sample_store = Inr (True, sample_store) \<and>
   check_chain_validity [0, 0] sample_store =
     Inr (False, sample_store(0 := BlockObj (forged_first\<lparr>hash := None\<rparr>))) \<and>
   map (sample_store(0 := BlockObj (forged_first\<lparr>hash := None\<rparr>))) [0, 0] =
     [BlockObj (forged_first\<lparr>hash := None\<rparr>), BlockObj (forged_first\<lparr>hash := None\<rparr>)]"
  using forged_passes forged_twice by (simp add: sample_store_at forged_ok)

text \<open>
  Claim C10 as amended, on the forged block followed by the genesis block, two objects:
  the call returns \<open>False\<close>, the genesis block has lost its hash, the forged block before
  it passes and is as it was.
\<close>

theorem check_chain_validity_effect_witness:
  "check_chain_validity [0, 1] sample_store =
     Inr (False, sample_store(1 := BlockObj (Block 0 [] (JInt 0) ''0'' 0))) \<and>
   (sample_store(1 := BlockObj (Block 0 [] (JInt 0) ''0'' 0))) 1 \<noteq> sample_store 1 \<and>
   (sample_store(1 := BlockObj (Block 0 [] (JInt 0) ''0'' 0))) 0 = BlockObj forged_first \<and>
   check_chain_validity [0] sample_store = Inr (True, sample_store)"
proof -
  let ?s' = "sample_store(1 := BlockObj (Block 0 [] (JInt 0) ''0'' 0))"
  have f: "check_chain_validity [0, 1] sample_store = Inr (False, ?s')"
    by (rule forged_then_genesis)
  have d: "?s' 1 \<noteq> sample_store 1"
    by (simp add: sample_store_at genesis_block_eq Block_def)
  from check_chain_validity_effect [of "[0, 1]" sample_store ?s', THEN conjunct1, rule_format, OF f]
  obtain as a rest where p: "[0, 1] = as @ a # rest" "\<forall>c. c \<noteq> a \<longrightarrow> ?s' c = sample_store c"
    "check_chain_validity as sample_store = Inr (True, sample_store)"
    by blast
  have a: "a = 1" using p(2) [rule_format, of 1] d by auto
  from p(1) a have "as = [0]" by (auto simp: Cons_eq_append_conv)
  with p(3) have "check_chain_validity [0] sample_store = Inr (True, sample_store)" by simp
  with f d show ?thesis by (simp add: sample_store_at)
qed

text \<open>
  Claim C6: the dump of the mined node is rebuilt to the chain of that node. The same dump
  with \<open>previous_hash\<close> of the mined block replaced is refused, and so is the dump whose
  second entry has lost its key \<^verbatim>\<open>hash\<close>, each with its own exception.
\<close>

theorem create_chain_from_dump_spec_witness:
  "create_chain_from_dump (map as_entry (resp_chain (get_chain mined_node))) = Inr mined_node \<and>
   map read_entry (drop 1 (map as_entry (resp_chain (get_chain mined_node)))) = map Inr [block_json mined_block] \<and>
   links_from (stored_hash genesis_block) (map as_appended [block_json mined_block]) \<and>
   add_block (create_genesis_block Blockchain) (rebuild ((block_json mined_block)\<lparr>bd_previous_hash := ''0''\<rparr>))
      (bd_hash ((block_json mined_block)\<lparr>bd_previous_hash := ''0''\<rparr>)) = Inr (False, create_genesis_block Blockchain) \<and>
   create_chain_from_dump [as_entry (block_json genesis_block), as_entry ((block_json mined_block)\<lparr>bd_previous_hash := ''0''\<rparr>)]
      = Inl TamperedChainDump \<and>
   read_entry ((as_entry (block_json mined_block))\<lparr>de_hash := None\<rparr>) = Inl KeyError \<and>
   create_chain_from_dump [as_entry (block_json genesis_block), (as_entry (block_json mined_block))\<lparr>de_hash := None\<rparr>]
      = Inl KeyError"
proof -
  let ?dump = "map as_entry (resp_chain (get_chain mined_node))"
  let ?bad = "(block_json mined_block)\<lparr>bd_previous_hash := ''0''\<rparr>"
  let ?cut = "(as_entry (block_json mined_block))\<lparr>de_hash := None\<rparr>"
  have m: "map read_entry (drop 1 ?dump) = map Inr [block_json mined_block]"
    by (simp add: get_chain_def mined_node_def read_entry_as_entry)
  have l: "links_from (stored_hash genesis_block) (map as_appended [block_json mined_block])"
    by (simp add: mined_block_ok)
  have n: "\<lparr>unconfirmed_data = [], chain = genesis_block # map as_appended [block_json mined_block]\<rparr> = mined_node"
    by (simp add: mined_node_def as_appended_def rebuild_def block_json_def mined_block_def
        mined_candidate_def Block_def stored_hash_def)
  from create_chain_from_dump_spec [of ?dump "[block_json mined_block]"] m l
  have ok: "create_chain_from_dump ?dump = Inr mined_node" by (simp only: n)
  have a: "add_block (create_genesis_block Blockchain) (rebuild ?bad) (bd_hash ?bad)
      = Inr (False, create_genesis_block Blockchain)"
    by (subst add_block_rebuilt [OF genesis_head])
      (simp add: block_ok_def as_appended_def rebuild_def Block_def stored_hash_def genesis_block_eq)
  have e: "dump_loop (create_genesis_block Blockchain) [] = Inr (create_genesis_block Blockchain)" by simp
  have d: "drop 1 [as_entry (block_json genesis_block), as_entry ?bad] = [] @ as_entry ?bad # []"
    "drop 1 [as_entry (block_json genesis_block), ?cut] = [] @ ?cut # []"
    by simp_all
  have r: "read_entry (as_entry ?bad) = Inr ?bad" by (rule read_entry_as_entry)
  have k: "read_entry ?cut = Inl KeyError" by (simp add: read_entry_def as_entry_def)
  from create_chain_from_dump_spec [of "[as_entry (block_json genesis_block), as_entry ?bad]" _ _ "[]"
      "as_entry ?bad" "[]" "create_genesis_block Blockchain" ?bad "create_genesis_block Blockchain"] d(1) e r a
  have t: "create_chain_from_dump [as_entry (block_json genesis_block), as_entry ?bad] = Inl TamperedChainDump"
    by blast
  from create_chain_from_dump_spec [of "[as_entry (block_json genesis_block), ?cut]" _ _ "[]"
      ?cut "[]" "create_genesis_block Blockchain" _ _ KeyError] d(2) e k
  have c: "create_chain_from_dump [as_entry (block_json genesis_block), ?cut] = Inl KeyError"
    by blast
  from ok m l a t k c show ?thesis by blast
qed

text \<open>
  Claim C8 as first stated fails: \<open>add_block\<close> appends the block with index 5 to the
  genesis block, and the chain has the indices 0 and 5.
\<close>

theorem reachable_skips_an_index:
  "reachable any_block skipped_node \<and> map index (chain skipped_node) = [0, 5]"
proof -
  have "reachable any_block skipped_node"
    by (rule reachable.added [OF reachable.start _ add_skipping]) (simp add: any_block_def)
  then show ?thesis
    by (simp add: skipped_node_def genesis_chain_facts skipping_block_def Block_def)
qed

text \<open>
  Claim C8 as amended, on the node that mined the sample entry.
\<close>

theorem reachable_indices_consecutive_witness:
  "reachable next_index mined_node \<and> chain mined_node \<noteq> [] \<and>
   index (hd (chain mined_node)) = 0 \<and> index (chain mined_node ! 1) = 1"
proof -
  have "reachable next_index waiting_node"
    unfolding waiting_node_def by (rule reachable.new_data [OF reachable.start])
  then have r: "reachable next_index mined_node"
    by (rule reachable.mined [OF _ mine_sample])
  from reachable_indices_consecutive [OF r]
  have "chain mined_node \<noteq> [] \<and> index (hd (chain mined_node)) = 0 \<and>
     (\<forall>i<length (chain mined_node). index (chain mined_node ! i) = int i)" .
  moreover have "1 < length (chain mined_node)" by (simp add: mined_node_def)
  ultimately show ?thesis using r by auto
qed

text \<open>
  Claim C5 fails on the code. A peer that mined one block answers with a chain of length
  2; \<open>consensus\<close> on a fresh node hands the JSON objects of that answer to
  \<open>check_chain_validity\<close>, which reads the attribute \<^verbatim>\<open>hash\<close> of the first of them, and the
  call raises \<^verbatim>\<open>AttributeError\<close>. On no input does \<open>consensus\<close> return \<open>True\<close> or replace the
  chain: it raises, or returns \<open>False\<close> with the chain as it was.
\<close>

theorem consensus_raises_on_peer_chain:
  "mine waiting_node sample_now = Some (Inr (True, mined_node)) \<and>
   get_chain mined_node = \<lparr>resp_length = 2, resp_chain = [block_json genesis_block, block_json mined_block]\<rparr> \<and>
   consensus (create_genesis_block Blockchain) [get_chain mined_node] = Inl AttributeError \<and>
   sample_store 0 = BlockObj forged_first \<and>
   check_chain_validity [0] sample_store = Inr (True, sample_store) \<and>
   consensus (create_genesis_block Blockchain) [\<lparr>resp_length = 2, resp_chain = [block_json forged_first]\<rparr>]
     = Inl AttributeError \<and>
   (\<forall>bc peers. consensus bc peers = Inl AttributeError \<or> consensus bc peers = Inr (False, BlockchainObj bc))"
proof -
  have g: "get_chain mined_node = \<lparr>resp_length = 2, resp_chain = [block_json genesis_block, block_json mined_block]\<rparr>"
    by (simp add: get_chain_def mined_node_def)
  have "consensus (create_genesis_block Blockchain) [get_chain mined_node] = Inl AttributeError"
    by (rule consensus_raises) (simp_all add: g genesis_chain_facts)
  moreover have "consensus bc peers = Inl AttributeError \<or> consensus bc peers = Inr (False, BlockchainObj bc)"
    for bc peers
  proof (cases "consensus bc peers")
    case (Inl e)
    with consensus_error [OF Inl] show ?thesis by simp
  next
    case (Inr rg)
    obtain r g where "rg = (r, g)" by (cases rg)
    with Inr consensus_result [of bc peers r g] show ?thesis by simp
  qed
  moreover have "consensus (create_genesis_block Blockchain)
      [\<lparr>resp_length = 2, resp_chain = [block_json forged_first]\<rparr>] = Inl AttributeError"
    by (rule consensus_raises) (simp_all add: genesis_chain_facts)
  ultimately show ?thesis using mine_sample g forged_passes sample_store_at(1) by blast
qed

end
